theory Spec2Isabelle
  imports Main "HOL-Library.Sublist"
begin

section \<open>Python string primitives used by PoreBlazerRun\<close>

text \<open>
  A Python \<open>str\<close> is modelled as a \<open>string\<close>: a list of characters, each character
  standing for the code point of the same number (so the texts covered are those whose
  code points are below 256). The text of a file is the \<open>str\<close> that \<open>f.read()\<close> returns.
\<close>

abbreviation (input) LF :: char where "LF \<equiv> CHR 0x0A"
abbreviation (input) CR :: char where "CR \<equiv> CHR 0x0D"
abbreviation (input) SP :: char where "SP \<equiv> CHR 0x20"

text \<open>\<open>old in s\<close>: the substring test.\<close>

fun contains :: "string \<Rightarrow> string \<Rightarrow> bool" where
  "contains old [] = (old = [])"
| "contains old (c # cs) = (prefix old (c # cs) \<or> contains old cs)"

text \<open>
  \<open>s.replace(old, new)\<close>: the occurrences of \<open>old\<close> are found from left to right and do
  not overlap; an empty \<open>old\<close> matches before every character and at the end.
\<close>

function replace :: "string \<Rightarrow> string \<Rightarrow> string \<Rightarrow> string" where
  "replace old new s =
     (if old = [] then new @ concat (map (\<lambda>c. c # new) s)
      else if s = [] then []
      else if prefix old s then new @ replace old new (drop (length old) s)
      else hd s # replace old new (tl s))"
  by pat_completeness auto
termination
  by (relation "measure (\<lambda>(old, new, s). length s)") auto

declare replace.simps [simp del]

text \<open>\<open>re.sub(r"( +)", r" ", text)\<close>: every maximal run of spaces becomes one space.\<close>

function sub_spaces :: "string \<Rightarrow> string" where
  "sub_spaces [] = []"
| "sub_spaces (c # cs) =
     (if c = SP then SP # sub_spaces (dropWhile (\<lambda>x. x = SP) cs)
      else c # sub_spaces cs)"
  by pat_completeness auto
termination
  by (relation "measure length") (auto simp: length_dropWhile_le less_Suc_eq_le)

text \<open>
  The line boundaries of \<open>str.splitlines\<close> among the code points below 256:
  \<open>\n\<close>, \<open>\r\<close>, \<open>\v\<close>, \<open>\f\<close>, \<open>\x1c\<close>, \<open>\x1d\<close>, \<open>\x1e\<close> and \<open>\x85\<close>.
\<close>

definition is_linebreak :: "char \<Rightarrow> bool" where
  "is_linebreak c \<longleftrightarrow>
     c \<in> {LF, CHR 0x0B, CHR 0x0C, CR, CHR 0x1C, CHR 0x1D, CHR 0x1E, CHR 0x85}"

text \<open>What follows the line boundary at the head of \<open>rest\<close>; \<open>\r\n\<close> is one boundary.\<close>

fun after_break :: "string \<Rightarrow> string" where
  "after_break [] = []"
| "after_break [b] = []"
| "after_break (b # d # r) = (if b = CR \<and> d = LF then r else d # r)"

text \<open>
  \<open>s.splitlines()\<close>: scan to the next line boundary, emit the line without it, go on
  after it. A text that ends with a boundary has no empty last line.
\<close>

function splitlines :: "string \<Rightarrow> string list" where
  "splitlines [] = []"
| "splitlines (c # cs) =
     takeWhile (\<lambda>x. \<not> is_linebreak x) (c # cs)
       # splitlines (after_break (dropWhile (\<lambda>x. \<not> is_linebreak x) (c # cs)))"
  by pat_completeness auto

termination
proof (relation "measure length", simp, goal_cases)
  case (1 c cs)
  let ?d = "dropWhile (\<lambda>x. \<not> is_linebreak x) (c # cs)"
  have shorter: "rest \<noteq> [] \<Longrightarrow> length (after_break rest) < length rest" for rest
    by (induction rest rule: after_break.induct) auto
  show ?case
  proof (cases "?d = []")
    case True
    then show ?thesis by simp
  next
    case False
    have "length (after_break ?d) < length ?d"
      using False by (rule shorter)
    also have "\<dots> \<le> length (c # cs)"
      by (rule length_dropWhile_le)
    finally show ?thesis by simp
  qed
qed

text \<open>
  The characters \<open>str.strip()\<close> removes (\<open>str.isspace\<close>) among the code points below 256.
\<close>

definition is_space :: "char \<Rightarrow> bool" where
  "is_space c \<longleftrightarrow>
     c \<in> {CHR 0x09, LF, CHR 0x0B, CHR 0x0C, CR, CHR 0x1C, CHR 0x1D, CHR 0x1E, CHR 0x1F,
          SP, CHR 0x85, CHR 0xA0}"

definition strip :: "string \<Rightarrow> string" where
  "strip s = rev (dropWhile is_space (rev (dropWhile is_space s)))"

text \<open>\<open>s.split(sep)\<close> for a separator of one character: always at least one piece.\<close>

fun split :: "char \<Rightarrow> string \<Rightarrow> string list" where
  "split sep [] = [[]]"
| "split sep (c # cs) =
     (if c = sep then [] # split sep cs
      else (case split sep cs of
              [] \<Rightarrow> [[c]]
            | w # ws \<Rightarrow> (c # w) # ws))"

text \<open>\<open>sep.join(xs)\<close>.\<close>

fun join :: "string \<Rightarrow> string list \<Rightarrow> string" where
  "join sep [] = []"
| "join sep [x] = x"
| "join sep (x # y # ys) = x @ sep @ join sep (y # ys)"

section \<open>The output directory and the path registry\<close>

text \<open>
  The directory is the state the loader works on: the text of each file by file name,
  the names written so far (in order), and the lines printed to standard output.
  Every file of the directory is a readable and writable text file.
\<close>

record world =
  files :: "string \<rightharpoonup> string"
  writes :: "string list"
  stdout :: "string list"

datatype error = KeyError | FileNotFoundError | IndexError | ValueError | PolarsError

type_synonym registry = "string \<rightharpoonup> string"

definition possible_paths :: "(string \<times> string) list" where
  "possible_paths =
     [(''psd_cum'', ''Total_psd_cumulative.txt''),
      (''psd'', ''Total_psd.txt''),
      (''summary'', ''summary.dat''),
      (''occup_vol'', ''probe_occupiable_volume.xyz''),
      (''na_psd_cum'', ''Network-accessible_psd_cumulative.txt''),
      (''na_psd'', ''Network-accessible_psd.txt''),
      (''N_net_xyz'', ''nitrogen_network.xyz''),
      (''N_net_grd'', ''nitrogen_network.grd'')]"

text \<open>\<open>__get_paths\<close>: the keys whose file exists, each with its path.\<close>

definition get_paths :: "world \<Rightarrow> registry" where
  "get_paths w = map_of (filter (\<lambda>(k, v). files w v \<noteq> None) possible_paths)"

text \<open>\<open>existing_paths[k]\<close>, \<open>path.open("r")\<close> with \<open>read()\<close>, \<open>path.open("w")\<close> with \<open>write(text)\<close>.\<close>

definition lookup :: "registry \<Rightarrow> string \<Rightarrow> error + string" where
  "lookup paths k =
     (case paths k of None \<Rightarrow> Inl KeyError | Some path \<Rightarrow> Inr path)"

definition read_text :: "string \<Rightarrow> world \<Rightarrow> error + string" where
  "read_text path w =
     (case files w path of None \<Rightarrow> Inl FileNotFoundError | Some text \<Rightarrow> Inr text)"

definition write_text :: "string \<Rightarrow> string \<Rightarrow> world \<Rightarrow> world" where
  "write_text path text w = w\<lparr>files := (files w)(path \<mapsto> text), writes := writes w @ [path]\<rparr>"

section \<open>Cleaning\<close>

text \<open>
  Each cleaning step returns the exception it raised, if any, and the directory as it has
  left it.
\<close>

type_synonym outcome = "error option \<times> world"

text \<open>The \<open>while True\<close> loop of \<open>__clean_psds\<close> on the text read.\<close>

function clean_psds_text :: "string \<Rightarrow> string" where
  "clean_psds_text data =
     (if contains ''  '' data then clean_psds_text (replace ''  '' '' '' data)
      else replace [SP, LF] [LF] (replace [LF, SP] [LF] data))"
  by pat_completeness auto
termination
proof (relation "measure length", simp, goal_cases)
  case (1 data)
  have step: "replace ''  '' '' '' (x # y # zs) =
      (if x = SP \<and> y = SP then SP # replace ''  '' '' '' zs
       else x # replace ''  '' '' '' (y # zs))" for x y zs
    by (subst replace.simps) auto
  have nil: "replace ''  '' '' '' [] = []"
    by (simp add: replace.simps [of _ _ "[]"])
  have one: "replace ''  '' '' '' [x] = [x]" for x
    by (simp add: replace.simps [of _ _ "[x]"] nil)
  have le: "length (replace ''  '' '' '' s) \<le> length s" for s
  proof (induction s rule: induct_list012)
    case 1
    show ?case by (simp add: nil)
  next
    case (2 x)
    show ?case by (simp add: one)
  next
    case (3 x y zs)
    then show ?case by (simp add: step)
  qed
  have lt: "contains ''  '' s \<Longrightarrow> length (replace ''  '' '' '' s) < length s" for s
  proof (induction s rule: induct_list012)
    case 1
    then show ?case by simp
  next
    case (2 x)
    then show ?case by simp
  next
    case (3 x y zs)
    show ?case
    proof (cases "x = SP \<and> y = SP")
      case True
      then show ?thesis using le [of zs] by (simp add: step)
    next
      case False
      with 3 show ?thesis by (auto simp: step)
    qed
  qed
  from 1 show ?case by (simp add: lt)
qed

declare clean_psds_text.simps [simp del]

definition clean_psds :: "string \<Rightarrow> world \<Rightarrow> outcome" where
  "clean_psds path w =
     (case read_text path w of
        Inl e \<Rightarrow> (Some e, w)
      | Inr data \<Rightarrow> (None, write_text path (clean_psds_text data) w))"

text \<open>
  The \<open>match\<close> of \<open>__clean_summary\<close> on one line of the text: the line to append and
  what the branch prints.
\<close>

definition clean_summary_line :: "string \<Rightarrow> string \<times> string list" where
  "clean_summary_line line0 =
     (let line = strip line0; splitted = split SP line in
      if length splitted = 1 then (line, [])
      else if length splitted = 2 then (splitted ! 0 @ '' '' @ splitted ! 1, [])
      else if length splitted = 3
        then (splitted ! 0 @ ''_'' @ splitted ! 1 @ '' '' @ splitted ! 2, [])
      else (line, [''error'']))"

definition clean_summary_text :: "string \<Rightarrow> string \<times> string list" where
  "clean_summary_text text0 =
     (let text1 = replace '' _'' ''_'' text0;
          text2 = replace '':'' [] text1;
          text3 = sub_spaces text2;
          cleaned = map clean_summary_line (splitlines text3)
      in (join [LF] (map fst cleaned), concat (map snd cleaned)))"

definition clean_summary :: "registry \<Rightarrow> world \<Rightarrow> outcome" where
  "clean_summary paths w =
     (if paths ''summary'' = None then (None, w)
      else case lookup paths ''summary'' of
        Inl e \<Rightarrow> (Some e, w)
      | Inr path \<Rightarrow>
         (case read_text path w of
            Inl e \<Rightarrow> (Some e, w)
          | Inr text \<Rightarrow>
             if CHR '','' \<in> set text then (None, w)
             else (let (to_write, printed) = clean_summary_text text
                   in (None, write_text path to_write (w\<lparr>stdout := stdout w @ printed\<rparr>)))))"

definition clean_occup_vol_text :: "string \<Rightarrow> string" where
  "clean_occup_vol_text text = join [LF] (map strip (splitlines (sub_spaces text)))"

definition clean_occup_vol :: "registry \<Rightarrow> world \<Rightarrow> outcome" where
  "clean_occup_vol paths w =
     (if paths ''occup_vol'' = None then (None, w)
      else case lookup paths ''occup_vol'' of
        Inl e \<Rightarrow> (Some e, w)
      | Inr path \<Rightarrow>
         (case read_text path w of
            Inl e \<Rightarrow> (Some e, w)
          | Inr text \<Rightarrow> (None, write_text path (clean_occup_vol_text text) w)))"

text \<open>Sequencing of statements: the first exception ends the sequence.\<close>

definition and_then :: "outcome \<Rightarrow> (world \<Rightarrow> outcome) \<Rightarrow> outcome" where
  "and_then r f = (case r of (Some e, w) \<Rightarrow> (Some e, w) | (None, w) \<Rightarrow> f w)"

definition clean_psd_key :: "registry \<Rightarrow> string \<Rightarrow> world \<Rightarrow> outcome" where
  "clean_psd_key paths k w =
     (if paths k = None then (None, w)
      else case lookup paths k of
        Inl e \<Rightarrow> (Some e, w)
      | Inr path \<Rightarrow> clean_psds path w)"

definition clean :: "registry \<Rightarrow> world \<Rightarrow> outcome" where
  "clean paths w =
     and_then (and_then (and_then
       (clean_psd_key paths ''psd_cum'' w)
       (clean_psd_key paths ''psd''))
       (clean_summary paths))
       (clean_occup_vol paths)"

section \<open>Parsing\<close>

text \<open>Statements that may raise, in sequence: the first exception ends the sequence.\<close>

definition bind :: "error + 'a \<Rightarrow> ('a \<Rightarrow> error + 'b) \<Rightarrow> error + 'b" where
  "bind r f = (case r of Inl e \<Rightarrow> Inl e | Inr x \<Rightarrow> f x)"

text \<open>\<open>xs[i]\<close> for a literal index \<open>i \<ge> 0\<close>, and the slice \<open>xs[a:b]\<close>.\<close>

definition item :: "'a list \<Rightarrow> nat \<Rightarrow> error + 'a" where
  "item xs i = (if i < length xs then Inr (xs ! i) else Inl IndexError)"

definition slice :: "nat \<Rightarrow> nat \<Rightarrow> 'a list \<Rightarrow> 'a list" where
  "slice a b xs = drop a (take b xs)"

text \<open>
  A value of the summary: \<open>float(s)\<close> or \<open>int(s)\<close>. The two conversions are parameters of
  the model, \<open>None\<close> where the conversion raises \<open>ValueError\<close>; \<open>'f\<close> is the type of floats.
\<close>

datatype 'f number = PyFloat 'f | PyInt int

definition float_of :: "(string \<Rightarrow> 'f option) \<Rightarrow> string \<Rightarrow> error + 'f number" where
  "float_of to_float s = (case to_float s of None \<Rightarrow> Inl ValueError | Some x \<Rightarrow> Inr (PyFloat x))"

definition int_of :: "(string \<Rightarrow> int option) \<Rightarrow> string \<Rightarrow> error + 'f number" where
  "int_of to_int s = (case to_int s of None \<Rightarrow> Inl ValueError | Some n \<Rightarrow> Inr (PyInt n))"

text \<open>
  One entry \<open>line.split(" ")[0]: conv(line.split(" ")[1])\<close> of a dict comprehension: the key
  is evaluated before the value.
\<close>

definition entry :: "(string \<Rightarrow> error + 'v) \<Rightarrow> string \<Rightarrow> error + (string \<times> 'v)" where
  "entry conv line =
     bind (item (split SP line) 0) (\<lambda>key.
     bind (item (split SP line) 1) (\<lambda>tok.
     bind (conv tok) (\<lambda>v. Inr (key, v))))"

text \<open>
  \<open>{key: value for i, line in enumerate(xs) if keep(i)}\<close>: the entries are stored in
  order, a later entry replacing an earlier one of the same key.
\<close>

fun dict_comp :: "(nat \<Rightarrow> bool) \<Rightarrow> (nat \<Rightarrow> string \<Rightarrow> error + (string \<times> 'v)) \<Rightarrow>
    (nat \<times> string) list \<Rightarrow> (string \<rightharpoonup> 'v) \<Rightarrow> error + (string \<rightharpoonup> 'v)" where
  "dict_comp keep ent [] d = Inr d"
| "dict_comp keep ent ((i, line) # rest) d =
     (if keep i
      then bind (ent i line) (\<lambda>(k, v). dict_comp keep ent rest (d(k \<mapsto> v)))
      else dict_comp keep ent rest d)"

text \<open>\<open>__parse_summary\<close> on the text read: \<open>input_file_name\<close> and \<open>summary\<close>.\<close>

definition parse_summary_text :: "(string \<Rightarrow> 'f option) \<Rightarrow> (string \<Rightarrow> int option) \<Rightarrow> string \<Rightarrow>
    error + (string \<times> (string \<rightharpoonup> (string \<rightharpoonup> 'f number)))" where
  "parse_summary_text to_float to_int text =
     (let lines = splitlines text in
      bind (item lines 0) (\<lambda>name.
      bind (dict_comp (\<lambda>i. True)
              (\<lambda>i. entry (if i \<noteq> 5 then float_of to_float else int_of to_int))
              (enumerate 0 (slice 1 7 lines)) Map.empty) (\<lambda>general_params.
      bind (dict_comp (\<lambda>i. i \<noteq> 3) (\<lambda>i. entry (float_of to_float))
              (enumerate 0 (slice 8 19 lines)) Map.empty) (\<lambda>total_params.
      bind (dict_comp (\<lambda>i. i \<noteq> 3) (\<lambda>i. entry (float_of to_float))
              (enumerate 0 (drop 20 lines)) Map.empty) (\<lambda>network_params.
      Inr (name,
           [''general_output'' \<mapsto> general_params,
            ''total_output'' \<mapsto> total_params,
            ''network_accessible_output'' \<mapsto> network_params]))))))"

text \<open>
  A polars \<open>DataFrame\<close>: the column names and the rows, a cell being \<open>None\<close> when null.
  \<open>pl.DataFrame()\<close> has no column and no row.
\<close>

record 'c frame =
  columns :: "string list"
  rows :: "'c option list list"

definition empty_frame :: "'c frame" where
  "empty_frame = \<lparr>columns = [], rows = []\<rparr>"

text \<open>
  \<open>pl.read_csv(path, separator, has_header, skip_lines, new_columns)\<close>: polars is not part
  of the repository, so what it makes of the text of the file is a parameter \<open>read_csv\<close>
  of the model, \<open>None\<close> where polars raises.
\<close>

type_synonym 'c csv_reader = "string \<Rightarrow> string \<Rightarrow> bool \<Rightarrow> nat \<Rightarrow> string list \<Rightarrow> 'c frame option"

definition pl_read_csv :: "'c csv_reader \<Rightarrow> world \<Rightarrow> string \<Rightarrow> string \<Rightarrow> bool \<Rightarrow> nat \<Rightarrow>
    string list \<Rightarrow> error + 'c frame" where
  "pl_read_csv read_csv w path separator has_header skip_lines new_columns =
     bind (read_text path w) (\<lambda>text.
       case read_csv text separator has_header skip_lines new_columns of
         None \<Rightarrow> Inl PolarsError
       | Some tab \<Rightarrow> Inr tab)"

definition column_index :: "string \<Rightarrow> string list \<Rightarrow> nat" where
  "column_index name cols = length (takeWhile (\<lambda>c. c \<noteq> name) cols)"

definition without :: "nat \<Rightarrow> 'a list \<Rightarrow> 'a list" where
  "without j xs = take j xs @ drop (Suc j) xs"

text \<open>
  Modelled from the spec: \<open>DataFrame.join(other, on, how="full", coalesce=True)\<close> is code
  of polars, which is not under src/. The spec: "Join the two tables on \<open>d\<close> with a full
  outer join, coalescing the join key into a single column (rows unmatched in one side get
  nulls for that side's value column)". A left row is paired with every right row of the
  same key, or with nulls when there is none; the right rows whose key no left row has
  follow, with nulls in the left columns and their key in the key column. A null key
  equals no key.
\<close>

definition join_full_coalesce :: "string \<Rightarrow> 'c frame \<Rightarrow> 'c frame \<Rightarrow> 'c frame" where
  "join_full_coalesce on l r =
     (let i = column_index on (columns l);
          j = column_index on (columns r);
          matches = (\<lambda>lr rr. lr ! i \<noteq> None \<and> lr ! i = rr ! j);
          left_rows = concat (map (\<lambda>lr.
             case filter (matches lr) (rows r) of
               [] \<Rightarrow> [lr @ replicate (length (columns r) - 1) None]
             | ms \<Rightarrow> map (\<lambda>rr. lr @ without j rr) ms) (rows l));
          right_rows = map (\<lambda>rr. (replicate (length (columns l)) None)[i := rr ! j] @ without j rr)
             (filter (\<lambda>rr. \<not> list_ex (\<lambda>lr. matches lr rr) (rows l)) (rows r))
      in \<lparr>columns = columns l @ without j (columns r), rows = left_rows @ right_rows\<rparr>)"

text \<open>\<open>__parse_psds\<close> and \<open>__parse_occup_vol\<close>: the table each assigns.\<close>

definition parse_psds :: "'c csv_reader \<Rightarrow> registry \<Rightarrow> world \<Rightarrow> error + 'c frame" where
  "parse_psds read_csv paths w =
     bind (lookup paths ''psd_cum'') (\<lambda>path_cum.
     bind (pl_read_csv read_csv w path_cum '' '' False 3 [''d'', ''Volume Fraction'']) (\<lambda>tab_psd_c.
     bind (lookup paths ''psd'') (\<lambda>path.
     bind (pl_read_csv read_csv w path '' '' False 1 [''d'', ''Derivative_dist'']) (\<lambda>tab_psd.
     Inr (join_full_coalesce ''d'' tab_psd_c tab_psd)))))"

definition parse_occup_vol :: "'c csv_reader \<Rightarrow> registry \<Rightarrow> world \<Rightarrow> error + 'c frame" where
  "parse_occup_vol read_csv paths w =
     bind (lookup paths ''occup_vol'') (\<lambda>path.
     pl_read_csv read_csv w path '' '' False 2 [''Particle'', ''x'', ''y'', ''z''])"

definition parse_summary :: "(string \<Rightarrow> 'f option) \<Rightarrow> (string \<Rightarrow> int option) \<Rightarrow> registry \<Rightarrow> world \<Rightarrow>
    error + (string \<times> (string \<rightharpoonup> (string \<rightharpoonup> 'f number)))" where
  "parse_summary to_float to_int paths w =
     bind (lookup paths ''summary'') (\<lambda>path.
     bind (read_text path w) (\<lambda>text.
     parse_summary_text to_float to_int text))"

section \<open>Construction\<close>

record ('c, 'f) run =
  psd :: "'c frame"
  occup_vol :: "'c frame"
  summary :: "string \<rightharpoonup> (string \<rightharpoonup> 'f number)"
  input_file_name :: string
  existing_paths :: registry

text \<open>The parsing statements of \<open>__init__\<close>, on the object with its attributes set.\<close>

definition parsing :: "'c csv_reader \<Rightarrow> (string \<Rightarrow> 'f option) \<Rightarrow> (string \<Rightarrow> int option) \<Rightarrow>
    world \<Rightarrow> ('c, 'f) run \<Rightarrow> error + ('c, 'f) run" where
  "parsing read_csv to_float to_int w self =
     bind (if existing_paths self ''psd'' \<noteq> None \<and> existing_paths self ''psd_cum'' \<noteq> None
           then bind (parse_psds read_csv (existing_paths self) w) (\<lambda>tab. Inr (self\<lparr>psd := tab\<rparr>))
           else Inr self) (\<lambda>self.
     bind (if existing_paths self ''summary'' \<noteq> None
           then bind (parse_summary to_float to_int (existing_paths self) w)
                  (\<lambda>(name, params). Inr (self\<lparr>input_file_name := name, summary := params\<rparr>))
           else Inr self) (\<lambda>self.
     if existing_paths self ''occup_vol'' \<noteq> None
     then bind (parse_occup_vol read_csv (existing_paths self) w) (\<lambda>tab. Inr (self\<lparr>occup_vol := tab\<rparr>))
     else Inr self))"

text \<open>
  \<open>PoreBlazerRun(path_dir, clean=flag)\<close> on the directory \<open>w\<close>: the object or the exception
  raised, and the directory as construction has left it.
\<close>

definition init :: "'c csv_reader \<Rightarrow> (string \<Rightarrow> 'f option) \<Rightarrow> (string \<Rightarrow> int option) \<Rightarrow>
    world \<Rightarrow> bool \<Rightarrow> (error + ('c, 'f) run) \<times> world" where
  "init read_csv to_float to_int w flag =
     (let self = \<lparr>psd = empty_frame, occup_vol = empty_frame, summary = Map.empty,
                  input_file_name = [], existing_paths = get_paths w\<rparr>;
          (raised, w') = (if flag then clean (existing_paths self) w else (None, w))
      in case raised of
           Some e \<Rightarrow> (Inl e, w')
         | None \<Rightarrow> (parsing read_csv to_float to_int w' self, w'))"

section \<open>Notions used in the statements\<close>

text \<open>A text without line boundary, and a list of lines without its last line when that is empty.\<close>

definition no_break :: "string \<Rightarrow> bool" where
  "no_break l \<longleftrightarrow> (\<forall>c \<in> set l. \<not> is_linebreak c)"

definition drop_last_empty :: "string list \<Rightarrow> string list" where
  "drop_last_empty ls = (if ls \<noteq> [] \<and> last ls = [] then butlast ls else ls)"

text \<open>
  The schema of the summary file in the spec's words. The first and the second token of a
  line split at single spaces; the lines \<open>a\<close> to \<open>b\<close> of a file, as far as it has them, and
  its lines from \<open>a\<close> on; a section is well shaped when every kept line has two tokens
  and a second token that converts; its mapping gives a key the value of the last kept line
  that has the key as first token.
\<close>

definition first_token :: "string \<Rightarrow> string" where
  "first_token line = hd (split SP line)"

definition second_token :: "string \<Rightarrow> string" where
  "second_token line = split SP line ! 1"

definition lines_between :: "nat \<Rightarrow> nat \<Rightarrow> string list \<Rightarrow> string list" where
  "lines_between a b ls = map (\<lambda>i. ls ! i) [a..<min (Suc b) (length ls)]"

definition lines_from :: "nat \<Rightarrow> string list \<Rightarrow> string list" where
  "lines_from a ls = map (\<lambda>i. ls ! i) [a..<length ls]"

definition section_ok :: "(nat \<Rightarrow> bool) \<Rightarrow> (nat \<Rightarrow> string \<Rightarrow> 'v option) \<Rightarrow> string list \<Rightarrow> bool" where
  "section_ok keep val sect \<longleftrightarrow>
     list_all (\<lambda>i. keep i \<longrightarrow> 2 \<le> length (split SP (sect ! i)) \<and> val i (second_token (sect ! i)) \<noteq> None)
       [0..<length sect]"

definition section_dict :: "(nat \<Rightarrow> bool) \<Rightarrow> (nat \<Rightarrow> string \<Rightarrow> 'v option) \<Rightarrow> string list \<Rightarrow> (string \<rightharpoonup> 'v)" where
  "section_dict keep val sect k =
     (case find (\<lambda>i. keep i \<and> first_token (sect ! i) = k) (rev [0..<length sect]) of
        None \<Rightarrow> None
      | Some i \<Rightarrow> val i (second_token (sect ! i)))"

text \<open>A conversion that raises \<open>ValueError\<close> where \<open>val\<close> has no value.\<close>

definition raising :: "('a \<Rightarrow> 'v option) \<Rightarrow> 'a \<Rightarrow> error + 'v" where
  "raising val s = (case val s of None \<Rightarrow> Inl ValueError | Some v \<Rightarrow> Inr v)"

text \<open>
  The value of a line of \<open>general_output\<close> (an integer at local index 5, a float elsewhere)
  and of a line of the two other sections; the whole file well shaped, and its schema.
\<close>

definition general_value :: "(string \<Rightarrow> 'f option) \<Rightarrow> (string \<Rightarrow> int option) \<Rightarrow> nat \<Rightarrow> string \<Rightarrow> 'f number option" where
  "general_value to_float to_int i s =
     (if i \<noteq> 5 then map_option PyFloat (to_float s) else map_option PyInt (to_int s))"

definition float_value :: "(string \<Rightarrow> 'f option) \<Rightarrow> nat \<Rightarrow> string \<Rightarrow> 'f number option" where
  "float_value to_float i s = map_option PyFloat (to_float s)"

definition summary_ok :: "(string \<Rightarrow> 'f option) \<Rightarrow> (string \<Rightarrow> int option) \<Rightarrow> string list \<Rightarrow> bool" where
  "summary_ok to_float to_int ls \<longleftrightarrow>
     ls \<noteq> []
     \<and> section_ok (\<lambda>i. True) (general_value to_float to_int) (lines_between 1 6 ls)
     \<and> section_ok (\<lambda>i. i \<noteq> 3) (float_value to_float) (lines_between 8 18 ls)
     \<and> section_ok (\<lambda>i. i \<noteq> 3) (float_value to_float) (lines_from 20 ls)"

definition summary_schema :: "(string \<Rightarrow> 'f option) \<Rightarrow> (string \<Rightarrow> int option) \<Rightarrow> string list \<Rightarrow>
    (string \<rightharpoonup> (string \<rightharpoonup> 'f number))" where
  "summary_schema to_float to_int ls =
     [''general_output'' \<mapsto> section_dict (\<lambda>i. True) (general_value to_float to_int) (lines_between 1 6 ls),
      ''total_output'' \<mapsto> section_dict (\<lambda>i. i \<noteq> 3) (float_value to_float) (lines_between 8 18 ls),
      ''network_accessible_output'' \<mapsto> section_dict (\<lambda>i. i \<noteq> 3) (float_value to_float) (lines_from 20 ls)]"

text \<open>The absolute indices of the lines the parser reads two tokens from.\<close>

definition parsed_index :: "nat \<Rightarrow> bool" where
  "parsed_index i \<longleftrightarrow> 1 \<le> i \<and> i \<le> 6 \<or> 8 \<le> i \<and> i \<le> 18 \<and> i \<noteq> 11 \<or> 20 \<le> i \<and> i \<noteq> 23"

text \<open>
  A registry names only files of the directory; the object \<open>__init__\<close> starts from, before
  parsing.
\<close>

definition registered :: "registry \<Rightarrow> world \<Rightarrow> bool" where
  "registered paths w \<longleftrightarrow> (\<forall>k p. paths k = Some p \<longrightarrow> files w p \<noteq> None)"

abbreviation (input) fresh :: "world \<Rightarrow> ('c, 'f) run" where
  "fresh w \<equiv> \<lparr>psd = empty_frame, occup_vol = empty_frame, summary = Map.empty,
               input_file_name = [], existing_paths = get_paths w\<rparr>"

text \<open>
  A frame whose rows all have one cell per column, as every polars frame has; the cells of
  the key column \<open>on\<close> of a frame.
\<close>

definition rectangular :: "'c frame \<Rightarrow> bool" where
  "rectangular fr \<longleftrightarrow> list_all (\<lambda>row. length row = length (columns fr)) (rows fr)"

definition keys :: "string \<Rightarrow> 'c frame \<Rightarrow> 'c option set" where
  "keys on fr = (\<lambda>row. row ! column_index on (columns fr)) ` set (rows fr)"

text \<open>The three replacements \<open>__clean_summary\<close> makes on the whole text, before it cuts lines.\<close>

definition summary_globals :: "string \<Rightarrow> string" where
  "summary_globals s = sub_spaces (replace '':'' [] (replace '' _'' ''_'' s))"

text \<open>
  The object the spec describes, computed from the texts the files have when they are parsed:
  the PSD table is the join of the two tables read when both PSD files exist and an empty
  table otherwise, the summary and \<open>input_file_name\<close> are those of the summary file when it
  exists and empty otherwise, the occupied-volume table is the table read when its file
  exists and an empty table otherwise. Only a parser of an existing file raises.
\<close>

definition expected_psd :: "'c csv_reader \<Rightarrow> (string \<rightharpoonup> string) \<Rightarrow> error + 'c frame" where
  "expected_psd read_csv texts =
     (case (texts ''Total_psd_cumulative.txt'', texts ''Total_psd.txt'') of
        (Some content_cum, Some content_psd) \<Rightarrow>
          (case read_csv content_cum '' '' False 3 [''d'', ''Volume Fraction''] of
             None \<Rightarrow> Inl PolarsError
           | Some tab_psd_c \<Rightarrow>
              (case read_csv content_psd '' '' False 1 [''d'', ''Derivative_dist''] of
                 None \<Rightarrow> Inl PolarsError
               | Some tab_psd \<Rightarrow> Inr (join_full_coalesce ''d'' tab_psd_c tab_psd)))
      | _ \<Rightarrow> Inr empty_frame)"

definition expected_summary :: "(string \<Rightarrow> 'f option) \<Rightarrow> (string \<Rightarrow> int option) \<Rightarrow>
    (string \<rightharpoonup> string) \<Rightarrow> error + (string \<times> (string \<rightharpoonup> (string \<rightharpoonup> 'f number)))" where
  "expected_summary to_float to_int texts =
     (case texts ''summary.dat'' of
        None \<Rightarrow> Inr ([], Map.empty)
      | Some content \<Rightarrow> parse_summary_text to_float to_int content)"

definition expected_occup_vol :: "'c csv_reader \<Rightarrow> (string \<rightharpoonup> string) \<Rightarrow> error + 'c frame" where
  "expected_occup_vol read_csv texts =
     (case texts ''probe_occupiable_volume.xyz'' of
        None \<Rightarrow> Inr empty_frame
      | Some content \<Rightarrow>
         (case read_csv content '' '' False 2 [''Particle'', ''x'', ''y'', ''z''] of
            None \<Rightarrow> Inl PolarsError
          | Some tab \<Rightarrow> Inr tab))"

definition expected_run :: "'c csv_reader \<Rightarrow> (string \<Rightarrow> 'f option) \<Rightarrow> (string \<Rightarrow> int option) \<Rightarrow>
    (string \<rightharpoonup> string) \<Rightarrow> registry \<Rightarrow> error + ('c, 'f) run" where
  "expected_run read_csv to_float to_int texts paths =
     bind (expected_psd read_csv texts) (\<lambda>tab_psd.
     bind (expected_summary to_float to_int texts) (\<lambda>(name, params).
     bind (expected_occup_vol read_csv texts) (\<lambda>tab.
     Inr \<lparr>psd = tab_psd, occup_vol = tab, summary = params, input_file_name = name,
          existing_paths = paths\<rparr>)))"

text \<open>
  The texts of the directory once \<open>clean()\<close> has run: the two PSD files, the summary (unless
  it has a comma) and the occupied-volume file normalised, every other file as it was.
\<close>

definition cleaned_texts :: "(string \<rightharpoonup> string) \<Rightarrow> (string \<rightharpoonup> string)" where
  "cleaned_texts texts name =
     (if name = ''Total_psd_cumulative.txt'' \<or> name = ''Total_psd.txt''
        then map_option clean_psds_text (texts name)
      else if name = ''summary.dat''
        then map_option (\<lambda>content. if CHR '','' \<in> set content then content
                                    else fst (clean_summary_text content)) (texts name)
      else if name = ''probe_occupiable_volume.xyz''
        then map_option clean_occup_vol_text (texts name)
      else texts name)"

section \<open>Facts about the string primitives\<close>

subsection \<open>Replacing a pair of characters\<close>

lemma replace_Nil: "old \<noteq> [] \<Longrightarrow> replace old new [] = []"
  by (simp add: replace.simps [of _ _ "[]"])

lemma replace2_one: "replace [a, b] new [x] = [x]"
  by (simp add: replace.simps [of _ _ "[x]"] replace_Nil)

lemma replace2_step:
  "replace [a, b] new (x # y # zs) =
     (if x = a \<and> y = b then new @ replace [a, b] new zs
      else x # replace [a, b] new (y # zs))"
  by (subst replace.simps) auto

lemma contains2_step:
  "contains [a, b] (x # y # zs) \<longleftrightarrow> x = a \<and> y = b \<or> contains [a, b] (y # zs)"
  by auto

lemma contains2_Cons: "contains [a, b] (x # s) \<longleftrightarrow> x = a \<and> prefix [b] s \<or> contains [a, b] s"
  by (cases s) auto

lemma replace2_absent: "\<not> contains [a, b] s \<Longrightarrow> replace [a, b] new s = s"
proof (induction s rule: induct_list012)
  case 1
  show ?case by (simp add: replace_Nil)
next
  case (2 x)
  show ?case by (simp add: replace2_one)
next
  case (3 x y zs)
  then show ?case by (auto simp add: replace2_step)
qed


lemma no_double_space_after_lf:
  "\<not> contains ''  '' (p # s) \<Longrightarrow> \<not> contains ''  '' (p # replace [LF, SP] [LF] s)"
proof (induction s arbitrary: p rule: induct_list012)
  case 1
  then show ?case by (simp add: replace_Nil)
next
  case (2 x)
  then show ?case by (simp add: replace2_one)
next
  case (3 x y zs)
  show ?case
  proof (cases "x = LF \<and> y = SP")
    case True
    then have eq: "replace [LF, SP] [LF] (x # y # zs) = LF # replace [LF, SP] [LF] zs"
      by (simp add: replace2_step)
    from "3.prems" True have pre: "\<not> contains ''  '' (LF # zs)"
      by (auto simp add: contains2_Cons)
    then have "\<not> contains ''  '' (LF # replace [LF, SP] [LF] zs)"
      by (intro "3.IH"(1)) simp_all
    moreover from "3.prems" True have "\<not> (p = SP \<and> LF = SP)"
      by (auto simp add: contains2_Cons)
    ultimately show ?thesis
      unfolding eq by (simp del: contains.simps add: contains2_step)
  next
    case False
    then have eq: "replace [LF, SP] [LF] (x # y # zs) = x # replace [LF, SP] [LF] (y # zs)"
      by (auto simp add: replace2_step)
    from "3.prems" False have pre: "\<not> contains ''  '' (x # y # zs)"
      by (auto simp add: contains2_Cons)
    then have "\<not> contains ''  '' (x # replace [LF, SP] [LF] (y # zs))"
      by (intro "3.IH"(2)) simp_all
    moreover from "3.prems" False have "\<not> (p = SP \<and> x = SP)"
      by (auto simp add: contains2_Cons)
    ultimately show ?thesis
      unfolding eq by (simp del: contains.simps add: contains2_step)
  qed
qed

lemma no_lf_space_after_lf:
  "\<not> contains ''  '' (p # s) \<Longrightarrow> (p = LF \<longrightarrow> \<not> prefix [SP] s) \<Longrightarrow> \<not> contains [LF, SP] (p # replace [LF, SP] [LF] s)"
proof (induction s arbitrary: p rule: induct_list012)
  case 1
  then show ?case by (simp add: replace_Nil)
next
  case (2 x)
  then show ?case by (simp add: replace2_one)
next
  case (3 x y zs)
  show ?case
  proof (cases "x = LF \<and> y = SP")
    case True
    then have eq: "replace [LF, SP] [LF] (x # y # zs) = LF # replace [LF, SP] [LF] zs"
      by (simp add: replace2_step)
    from "3.prems" True have pre: "\<not> contains ''  '' (LF # zs)" "LF = LF \<longrightarrow> \<not> prefix [SP] zs"
      by (auto simp add: contains2_Cons)
    then have "\<not> contains [LF, SP] (LF # replace [LF, SP] [LF] zs)"
      by (intro "3.IH"(1)) simp_all
    moreover from "3.prems" True have "\<not> (p = LF \<and> LF = SP)"
      by (auto simp add: contains2_Cons)
    ultimately show ?thesis
      unfolding eq by (simp del: contains.simps add: contains2_step)
  next
    case False
    then have eq: "replace [LF, SP] [LF] (x # y # zs) = x # replace [LF, SP] [LF] (y # zs)"
      by (auto simp add: replace2_step)
    from "3.prems" False have pre: "\<not> contains ''  '' (x # y # zs)" "x = LF \<longrightarrow> \<not> prefix [SP] (y # zs)"
      by (auto simp add: contains2_Cons)
    then have "\<not> contains [LF, SP] (x # replace [LF, SP] [LF] (y # zs))"
      by (intro "3.IH"(2)) simp_all
    moreover from "3.prems" False have "\<not> (p = LF \<and> x = SP)"
      by (auto simp add: contains2_Cons)
    ultimately show ?thesis
      unfolding eq by (simp del: contains.simps add: contains2_step)
  qed
qed

lemma no_double_space_before_lf:
  "\<not> contains ''  '' (p # s) \<Longrightarrow> \<not> contains ''  '' (p # replace [SP, LF] [LF] s)"
proof (induction s arbitrary: p rule: induct_list012)
  case 1
  then show ?case by (simp add: replace_Nil)
next
  case (2 x)
  then show ?case by (simp add: replace2_one)
next
  case (3 x y zs)
  show ?case
  proof (cases "x = SP \<and> y = LF")
    case True
    then have eq: "replace [SP, LF] [LF] (x # y # zs) = LF # replace [SP, LF] [LF] zs"
      by (simp add: replace2_step)
    from "3.prems" True have pre: "\<not> contains ''  '' (LF # zs)"
      by (auto simp add: contains2_Cons)
    then have "\<not> contains ''  '' (LF # replace [SP, LF] [LF] zs)"
      by (intro "3.IH"(1)) simp_all
    moreover from "3.prems" True have "\<not> (p = SP \<and> LF = SP)"
      by (auto simp add: contains2_Cons)
    ultimately show ?thesis
      unfolding eq by (simp del: contains.simps add: contains2_step)
  next
    case False
    then have eq: "replace [SP, LF] [LF] (x # y # zs) = x # replace [SP, LF] [LF] (y # zs)"
      by (auto simp add: replace2_step)
    from "3.prems" False have pre: "\<not> contains ''  '' (x # y # zs)"
      by (auto simp add: contains2_Cons)
    then have "\<not> contains ''  '' (x # replace [SP, LF] [LF] (y # zs))"
      by (intro "3.IH"(2)) simp_all
    moreover from "3.prems" False have "\<not> (p = SP \<and> x = SP)"
      by (auto simp add: contains2_Cons)
    ultimately show ?thesis
      unfolding eq by (simp del: contains.simps add: contains2_step)
  qed
qed

lemma no_lf_space_before_lf:
  "\<not> contains [LF, SP] (p # s) \<Longrightarrow> \<not> contains [LF, SP] (p # replace [SP, LF] [LF] s)"
proof (induction s arbitrary: p rule: induct_list012)
  case 1
  then show ?case by (simp add: replace_Nil)
next
  case (2 x)
  then show ?case by (simp add: replace2_one)
next
  case (3 x y zs)
  show ?case
  proof (cases "x = SP \<and> y = LF")
    case True
    then have eq: "replace [SP, LF] [LF] (x # y # zs) = LF # replace [SP, LF] [LF] zs"
      by (simp add: replace2_step)
    from "3.prems" True have pre: "\<not> contains [LF, SP] (LF # zs)"
      by (auto simp add: contains2_Cons)
    then have "\<not> contains [LF, SP] (LF # replace [SP, LF] [LF] zs)"
      by (intro "3.IH"(1)) simp_all
    moreover from "3.prems" True have "\<not> (p = LF \<and> LF = SP)"
      by (auto simp add: contains2_Cons)
    ultimately show ?thesis
      unfolding eq by (simp del: contains.simps add: contains2_step)
  next
    case False
    then have eq: "replace [SP, LF] [LF] (x # y # zs) = x # replace [SP, LF] [LF] (y # zs)"
      by (auto simp add: replace2_step)
    from "3.prems" False have pre: "\<not> contains [LF, SP] (x # y # zs)"
      by (auto simp add: contains2_Cons)
    then have "\<not> contains [LF, SP] (x # replace [SP, LF] [LF] (y # zs))"
      by (intro "3.IH"(2)) simp_all
    moreover from "3.prems" False have "\<not> (p = LF \<and> x = SP)"
      by (auto simp add: contains2_Cons)
    ultimately show ?thesis
      unfolding eq by (simp del: contains.simps add: contains2_step)
  qed
qed

lemma no_space_lf_before_lf:
  "\<not> contains ''  '' (p # s) \<Longrightarrow> (p = SP \<longrightarrow> \<not> prefix [LF] s) \<Longrightarrow> \<not> contains [SP, LF] (p # replace [SP, LF] [LF] s)"
proof (induction s arbitrary: p rule: induct_list012)
  case 1
  then show ?case by (simp add: replace_Nil)
next
  case (2 x)
  then show ?case by (simp add: replace2_one)
next
  case (3 x y zs)
  show ?case
  proof (cases "x = SP \<and> y = LF")
    case True
    then have eq: "replace [SP, LF] [LF] (x # y # zs) = LF # replace [SP, LF] [LF] zs"
      by (simp add: replace2_step)
    from "3.prems" True have pre: "\<not> contains ''  '' (LF # zs)" "LF = SP \<longrightarrow> \<not> prefix [LF] zs"
      by (auto simp add: contains2_Cons)
    then have "\<not> contains [SP, LF] (LF # replace [SP, LF] [LF] zs)"
      by (intro "3.IH"(1)) simp_all
    moreover from "3.prems" True have "\<not> (p = SP \<and> LF = LF)"
      by (auto simp add: contains2_Cons)
    ultimately show ?thesis
      unfolding eq by (simp del: contains.simps add: contains2_step)
  next
    case False
    then have eq: "replace [SP, LF] [LF] (x # y # zs) = x # replace [SP, LF] [LF] (y # zs)"
      by (auto simp add: replace2_step)
    from "3.prems" False have pre: "\<not> contains ''  '' (x # y # zs)" "x = SP \<longrightarrow> \<not> prefix [LF] (y # zs)"
      by (auto simp add: contains2_Cons)
    then have "\<not> contains [SP, LF] (x # replace [SP, LF] [LF] (y # zs))"
      by (intro "3.IH"(2)) simp_all
    moreover from "3.prems" False have "\<not> (p = SP \<and> x = LF)"
      by (auto simp add: contains2_Cons)
    ultimately show ?thesis
      unfolding eq by (simp del: contains.simps add: contains2_step)
  qed
qed

lemma drop_guard: "\<not> contains [a, b] (CHR ''x'' # s) \<Longrightarrow> \<not> contains [a, b] s"
  by (simp add: contains2_Cons)

lemma psds_tail_clean:
  assumes "\<not> contains ''  '' s"
  defines "t \<equiv> replace [SP, LF] [LF] (replace [LF, SP] [LF] s)"
  shows "\<not> contains ''  '' t" and "\<not> contains [LF, SP] t" and "\<not> contains [SP, LF] t"
proof -
  let ?g = "CHR ''x''"
  let ?u = "replace [LF, SP] [LF] s"
  have s: "\<not> contains ''  '' (?g # s)"
    using assms(1) by (simp add: contains2_Cons)
  have u1: "\<not> contains ''  '' (?g # ?u)"
    using s by (rule no_double_space_after_lf)
  have u2: "\<not> contains [LF, SP] (?g # ?u)"
    using s by (rule no_lf_space_after_lf) simp
  have "\<not> contains ''  '' (?g # t)"
    unfolding t_def using u1 by (rule no_double_space_before_lf)
  then show "\<not> contains ''  '' t" by (rule drop_guard)
  have "\<not> contains [LF, SP] (?g # t)"
    unfolding t_def using u2 by (rule no_lf_space_before_lf)
  then show "\<not> contains [LF, SP] t" by (rule drop_guard)
  have "\<not> contains [SP, LF] (?g # t)"
    unfolding t_def using u1 by (rule no_space_lf_before_lf) simp
  then show "\<not> contains [SP, LF] t" by (rule drop_guard)
qed

lemma clean_psds_text_clean:
  "\<not> contains ''  '' (clean_psds_text data) \<and> \<not> contains [LF, SP] (clean_psds_text data)
     \<and> \<not> contains [SP, LF] (clean_psds_text data)"
proof (induction data rule: clean_psds_text.induct)
  case (1 data)
  show ?case
  proof (cases "contains ''  '' data")
    case True
    then have "clean_psds_text data = clean_psds_text (replace ''  '' '' '' data)"
      by (subst clean_psds_text.simps) simp
    with 1 True show ?thesis by simp
  next
    case False
    then have "clean_psds_text data = replace [SP, LF] [LF] (replace [LF, SP] [LF] data)"
      by (subst clean_psds_text.simps) simp
    with psds_tail_clean [OF False] show ?thesis by simp
  qed
qed

lemma clean_psds_text_idem: "clean_psds_text (clean_psds_text data) = clean_psds_text data"
  using clean_psds_text_clean [of data]
  by (subst clean_psds_text.simps) (simp add: replace2_absent)

subsection \<open>Lines\<close>

lemma after_break_single: "b \<noteq> CR \<Longrightarrow> after_break (b # r) = r"
  by (cases r) simp_all

lemma splitlines_no_break: "no_break l \<Longrightarrow> splitlines l = (if l = [] then [] else [l])"
proof (cases l)
  case Nil
  then show ?thesis by simp
next
  case (Cons c cs)
  assume "no_break l"
  then have tw: "takeWhile (\<lambda>x. \<not> is_linebreak x) (c # cs) = c # cs"
    and dw: "dropWhile (\<lambda>x. \<not> is_linebreak x) (c # cs) = []"
    unfolding Cons no_break_def by (simp_all only: takeWhile_eq_all_conv dropWhile_eq_Nil_conv)
  show ?thesis
    unfolding Cons by (simp only: splitlines.simps tw dw) simp
qed

lemma splitlines_line:
  assumes "no_break l" "is_linebreak b"
  shows "splitlines (l @ b # rest) = l # splitlines (after_break (b # rest))"
proof -
  have tw: "takeWhile (\<lambda>x. \<not> is_linebreak x) (l @ b # rest) = l"
    using assms by (simp add: no_break_def takeWhile_append2)
  have dw: "dropWhile (\<lambda>x. \<not> is_linebreak x) (l @ b # rest) = b # rest"
    using assms by (simp add: no_break_def dropWhile_append2)
  show ?thesis
  proof (cases "l @ b # rest")
    case Nil
    then show ?thesis by simp
  next
    case (Cons c cs)
    have "splitlines (c # cs) = takeWhile (\<lambda>x. \<not> is_linebreak x) (c # cs)
        # splitlines (after_break (dropWhile (\<lambda>x. \<not> is_linebreak x) (c # cs)))"
      by simp
    then show ?thesis
      unfolding Cons [symmetric] tw dw .
  qed
qed

lemma splitlines_lines_no_break: "l \<in> set (splitlines t) \<Longrightarrow> no_break l"
proof (induction t arbitrary: l rule: splitlines.induct)
  case 1
  then show ?case by simp
next
  case (2 c cs)
  from "2.prems" show ?case
  proof (simp del: takeWhile.simps dropWhile.simps, elim disjE)
    assume "l = takeWhile (\<lambda>x. \<not> is_linebreak x) (c # cs)"
    then show "no_break l"
      by (auto simp: no_break_def dest: set_takeWhileD)
  next
    assume "l \<in> set (splitlines (after_break (dropWhile (\<lambda>x. \<not> is_linebreak x) (c # cs))))"
    then show "no_break l" by (rule "2.IH")
  qed
qed

lemma splitlines_join:
  "\<forall>l \<in> set ls. no_break l \<Longrightarrow> splitlines (join [LF] ls) = drop_last_empty ls"
proof (induction ls rule: induct_list012[case_names Nil One More])
  case Nil
  show ?case by (simp add: drop_last_empty_def)
next
  case (One x)
  then show ?case by (simp add: drop_last_empty_def splitlines_no_break)
next
  case (More x y ys)
  have "splitlines (x @ LF # join [LF] (y # ys)) = x # splitlines (after_break (LF # join [LF] (y # ys)))"
    using More.prems by (intro splitlines_line) (simp_all add: is_linebreak_def)
  also have "\<dots> = x # drop_last_empty (y # ys)"
    using More by (simp add: after_break_single)
  finally show ?case by (simp add: drop_last_empty_def)
qed

subsection \<open>Tokens\<close>

lemma split_not_Nil: "split sep s \<noteq> []"
  by (induction s) (auto split: list.splits)

lemma join_Cons: "ys \<noteq> [] \<Longrightarrow> join sep (x # ys) = x @ sep @ join sep ys"
  by (cases ys) simp_all

lemma join_split: "join [sep] (split sep s) = s"
proof (induction s)
  case Nil
  show ?case by simp
next
  case (Cons c cs)
  show ?case
  proof (cases "c = sep")
    case True
    then show ?thesis using Cons by (simp add: join_Cons split_not_Nil)
  next
    case False
    obtain w ws where ws: "split sep cs = w # ws"
      using split_not_Nil [of sep cs] by (cases "split sep cs") auto
    have "join [sep] ((c # w) # ws) = c # join [sep] (w # ws)"
      by (cases ws) simp_all
    with False ws Cons show ?thesis by simp
  qed
qed

lemma length_split: "length (split sep s) = Suc (length (filter (\<lambda>c. c = sep) s))"
  by (induction s) (auto split: list.splits simp: split_not_Nil)

lemma two_tokens: "split sep s = [a, b] \<Longrightarrow> a @ [sep] @ b = s"
  using join_split [of sep s] by simp

lemma list_of_length_2: "length xs = 2 \<Longrightarrow> xs = [xs ! 0, xs ! 1]"
  by (cases xs; cases "tl xs") auto

subsection \<open>Parsing the summary\<close>

lemma item_split_0: "item (split SP line) 0 = Inr (first_token line)"
  using split_not_Nil [of SP line]
  by (cases "split SP line") (simp_all add: item_def first_token_def)

lemma entry_eq:
  "entry (raising val) line =
     (if length (split SP line) < 2 then Inl IndexError
      else case val (second_token line) of
             None \<Rightarrow> Inl ValueError
           | Some v \<Rightarrow> Inr (first_token line, v))"
  unfolding entry_def item_split_0
  by (simp add: bind_def item_def second_token_def raising_def split: option.splits)

lemma find_append: "find P (xs @ ys) = (case find P xs of None \<Rightarrow> find P ys | Some x \<Rightarrow> Some x)"
  by (induction xs) simp_all

text \<open>The entries of a comprehension, from the first line on: the last kept line of a key wins.\<close>

lemma dict_comp_Inr:
  assumes "\<forall>(i, l) \<in> set es. keep i \<longrightarrow> 2 \<le> length (split SP l) \<and> val i (second_token l) \<noteq> None"
  shows "dict_comp keep (\<lambda>i. entry (raising (val i))) es d =
     Inr (\<lambda>k. case find (\<lambda>(i, l). keep i \<and> first_token l = k) (rev es) of
                None \<Rightarrow> d k
              | Some (i, l) \<Rightarrow> val i (second_token l))"
  using assms
proof (induction es arbitrary: d)
  case Nil
  show ?case by simp
next
  case (Cons e es)
  obtain i l where e: "e = (i, l)" by (cases e)
  have rest: "\<forall>(i, l) \<in> set es. keep i \<longrightarrow> 2 \<le> length (split SP l) \<and> val i (second_token l) \<noteq> None"
    using Cons.prems by simp
  show ?case
  proof (cases "keep i")
    case False
    then show ?thesis
      unfolding e by (simp add: Cons.IH [OF rest] find_append fun_eq_iff split: option.splits)
  next
    case True
    with Cons.prems e obtain v where v: "val i (second_token l) = Some v" and two: "2 \<le> length (split SP l)"
      by auto
    have ent: "entry (raising (val i)) l = Inr (first_token l, v)"
      using v two by (simp add: entry_eq)
    show ?thesis
      unfolding e using True v
      by (simp add: ent bind_def Cons.IH [OF rest] find_append fun_eq_iff split: option.splits)
  qed
qed

lemma dict_comp_Inl:
  assumes "(i, l) \<in> set es" "keep i" "ent i l = Inl e"
  shows "\<exists>e'. dict_comp keep ent es d = Inl e'"
  using assms
proof (induction es arbitrary: d)
  case Nil
  then show ?case by simp
next
  case (Cons x es)
  obtain j m where x: "x = (j, m)" by (cases x)
  show ?case
  proof (cases "x = (i, l)")
    case True
    with Cons.prems show ?thesis by (simp add: bind_def)
  next
    case False
    with Cons.prems have "(i, l) \<in> set es" by simp
    from Cons.IH [OF this Cons.prems(2,3)] show ?thesis
      unfolding x by (simp add: bind_def split: sum.splits prod.splits)
  qed
qed

lemma find_map: "find Q (map f xs) = map_option f (find (\<lambda>x. Q (f x)) xs)"
  by (induction xs) simp_all

lemma enumerate_nth: "enumerate 0 sect = map (\<lambda>i. (i, sect ! i)) [0..<length sect]"
  by (rule nth_equalityI) (simp_all add: nth_enumerate_eq)

lemma find_rev_enumerate:
  "find (\<lambda>(i, l). P i l) (rev (enumerate 0 sect)) =
     map_option (\<lambda>i. (i, sect ! i)) (find (\<lambda>i. P i (sect ! i)) (rev [0..<length sect]))"
  by (simp add: enumerate_nth rev_map find_map)

lemma dict_comp_section:
  "dict_comp keep (\<lambda>i. entry (raising (val i))) (enumerate 0 sect) Map.empty =
     (if section_ok keep val sect then Inr (section_dict keep val sect)
      else dict_comp keep (\<lambda>i. entry (raising (val i))) (enumerate 0 sect) Map.empty)"
  "\<not> section_ok keep val sect \<Longrightarrow>
     \<exists>e. dict_comp keep (\<lambda>i. entry (raising (val i))) (enumerate 0 sect) d = Inl e"
proof -
  show "dict_comp keep (\<lambda>i. entry (raising (val i))) (enumerate 0 sect) Map.empty =
     (if section_ok keep val sect then Inr (section_dict keep val sect)
      else dict_comp keep (\<lambda>i. entry (raising (val i))) (enumerate 0 sect) Map.empty)"
  proof (cases "section_ok keep val sect")
    case False
    then show ?thesis by simp
  next
    case True
    then have "\<forall>(i, l) \<in> set (enumerate 0 sect).
        keep i \<longrightarrow> 2 \<le> length (split SP l) \<and> val i (second_token l) \<noteq> None"
      by (auto simp: section_ok_def list_all_iff in_set_enumerate_eq)
    from dict_comp_Inr [OF this] True show ?thesis
      by (simp add: find_rev_enumerate section_dict_def fun_eq_iff split: option.splits)
  qed
next
  assume "\<not> section_ok keep val sect"
  then obtain i where i: "i < length sect" "keep i"
    "\<not> (2 \<le> length (split SP (sect ! i)) \<and> val i (second_token (sect ! i)) \<noteq> None)"
    by (auto simp: section_ok_def list_all_iff)
  have mem: "(i, sect ! i) \<in> set (enumerate 0 sect)"
    using i(1) by (simp add: in_set_enumerate_eq)
  have "\<exists>e. entry (raising (val i)) (sect ! i) = Inl e"
    using i(3) by (auto simp: entry_eq)
  then obtain e where "entry (raising (val i)) (sect ! i) = Inl e" ..
  from dict_comp_Inl [where ent = "\<lambda>i. entry (raising (val i))" and keep = keep, OF mem i(2) this]
  show "\<exists>e. dict_comp keep (\<lambda>i. entry (raising (val i))) (enumerate 0 sect) d = Inl e" .
qed

lemma slice_lines_between: "slice a (Suc b) ls = lines_between a b ls"
  unfolding slice_def lines_between_def
proof (rule nth_equalityI)
  show "length (drop a (take (Suc b) ls)) = length (map ((!) ls) [a..<min (Suc b) (length ls)])"
    by simp
next
  fix i
  assume "i < length (drop a (take (Suc b) ls))"
  then have i: "a + i < min (Suc b) (length ls)"
    by (simp add: min_def split: if_splits)
  then have "[a..<min (Suc b) (length ls)] ! i = a + i"
    by (intro nth_upt)
  moreover have "i < length [a..<min (Suc b) (length ls)]"
    using i by (simp add: min_def split: if_splits)
  ultimately have "map ((!) ls) [a..<min (Suc b) (length ls)] ! i = ls ! (a + i)"
    by (simp only: nth_map)
  moreover have "drop a (take (Suc b) ls) ! i = ls ! (a + i)"
    using i by simp
  ultimately show "drop a (take (Suc b) ls) ! i = map ((!) ls) [a..<min (Suc b) (length ls)] ! i"
    by simp
qed

lemma drop_lines_from: "drop a ls = lines_from a ls"
  unfolding lines_from_def
  by (rule nth_equalityI) auto

lemma conversions_raising:
  "(if i \<noteq> 5 then float_of to_float else int_of to_int) = raising (general_value to_float to_int i)"
  "float_of to_float = raising (float_value to_float i)"
  by (auto simp: fun_eq_iff float_of_def int_of_def raising_def general_value_def float_value_def
      split: option.splits)

lemma parse_summary_text_sections:
  "parse_summary_text to_float to_int content =
     bind (item (splitlines content) 0) (\<lambda>name.
     bind (dict_comp (\<lambda>i. True) (\<lambda>i. entry (raising (general_value to_float to_int i)))
             (enumerate 0 (lines_between 1 6 (splitlines content))) Map.empty) (\<lambda>general_params.
     bind (dict_comp (\<lambda>i. i \<noteq> 3) (\<lambda>i. entry (raising (float_value to_float i)))
             (enumerate 0 (lines_between 8 18 (splitlines content))) Map.empty) (\<lambda>total_params.
     bind (dict_comp (\<lambda>i. i \<noteq> 3) (\<lambda>i. entry (raising (float_value to_float i)))
             (enumerate 0 (lines_from 20 (splitlines content))) Map.empty) (\<lambda>network_params.
     Inr (name,
          [''general_output'' \<mapsto> general_params,
           ''total_output'' \<mapsto> total_params,
           ''network_accessible_output'' \<mapsto> network_params])))))"
proof -
  have s1: "slice 1 7 ls = lines_between 1 6 ls" and s2: "slice 8 19 ls = lines_between 8 18 ls"
    for ls :: "string list"
    using slice_lines_between [of 1 6 ls] slice_lines_between [of 8 18 ls]
    by (simp_all add: eval_nat_numeral)
  have e1: "(\<lambda>i. entry (if i \<noteq> 5 then float_of to_float else int_of to_int)) =
      (\<lambda>i. entry (raising (general_value to_float to_int i)))"
    by (simp only: conversions_raising(1))
  have e2: "(\<lambda>i::nat. entry (float_of to_float)) = (\<lambda>i. entry (raising (float_value to_float i)))"
    by (simp add: conversions_raising(2) [symmetric])
  show ?thesis
    unfolding parse_summary_text_def Let_def s1 s2 drop_lines_from e1 e2 ..
qed

lemma parse_summary_schema_aux:
  "(summary_ok to_float to_int (splitlines content) \<longrightarrow>
      parse_summary_text to_float to_int content =
        Inr (splitlines content ! 0, summary_schema to_float to_int (splitlines content)))
   \<and> (\<not> summary_ok to_float to_int (splitlines content) \<longrightarrow>
      (\<exists>e. parse_summary_text to_float to_int content = Inl e))"
proof (intro conjI impI)
  assume ok: "summary_ok to_float to_int (splitlines content)"
  then have "item (splitlines content) 0 = Inr (splitlines content ! 0)"
    by (simp add: summary_ok_def item_def)
  with ok show "parse_summary_text to_float to_int content =
        Inr (splitlines content ! 0, summary_schema to_float to_int (splitlines content))"
    unfolding parse_summary_text_sections summary_ok_def summary_schema_def
    by (simp add: bind_def dict_comp_section(1))
next
  assume bad: "\<not> summary_ok to_float to_int (splitlines content)"
  let ?ls = "splitlines content"
  show "\<exists>e. parse_summary_text to_float to_int content = Inl e"
  proof (cases "?ls = []")
    case True
    then show ?thesis
      unfolding parse_summary_text_sections by (simp add: bind_def item_def)
  next
    case False
    from bad False consider
        (g) "\<not> section_ok (\<lambda>i. True) (general_value to_float to_int) (lines_between 1 6 ?ls)"
      | (t) "\<not> section_ok (\<lambda>i. i \<noteq> 3) (float_value to_float) (lines_between 8 18 ?ls)"
      | (n) "\<not> section_ok (\<lambda>i. i \<noteq> 3) (float_value to_float) (lines_from 20 ?ls)"
      by (auto simp: summary_ok_def)
    then show ?thesis
    proof cases
      case g
      from dict_comp_section(2) [OF g, of Map.empty] show ?thesis
        unfolding parse_summary_text_sections
        by (auto simp: bind_def split: sum.splits)
    next
      case t
      from dict_comp_section(2) [OF t, of Map.empty] show ?thesis
        unfolding parse_summary_text_sections
        by (auto simp: bind_def split: sum.splits)
    next
      case n
      from dict_comp_section(2) [OF n, of Map.empty] show ?thesis
        unfolding parse_summary_text_sections
        by (auto simp: bind_def split: sum.splits)
    qed
  qed
qed

lemma dict_comp_errors:
  "dict_comp keep (\<lambda>i. entry (raising (val i))) es d = Inl e \<Longrightarrow> e = IndexError \<or> e = ValueError"
proof (induction es arbitrary: d)
  case Nil
  then show ?case by simp
next
  case (Cons x es)
  obtain i l where x: "x = (i, l)" by (cases x)
  show ?case
  proof (cases "keep i")
    case False
    with Cons.prems have "dict_comp keep (\<lambda>i. entry (raising (val i))) es d = Inl e"
      unfolding x by simp
    then show ?thesis by (rule Cons.IH)
  next
    case True
    show ?thesis
    proof (cases "entry (raising (val i)) l")
      case (Inl e')
      with True Cons.prems have "e' = e"
        unfolding x by (simp add: bind_def)
      with Inl show ?thesis
        by (auto simp: entry_eq split: if_splits option.splits)
    next
      case (Inr kv)
      with True Cons.prems
      have "dict_comp keep (\<lambda>i. entry (raising (val i))) es (d(fst kv \<mapsto> snd kv)) = Inl e"
        unfolding x by (simp add: bind_def split: prod.splits)
      then show ?thesis by (rule Cons.IH)
    qed
  qed
qed

lemma parse_summary_text_errors:
  assumes "parse_summary_text to_float to_int content = Inl e"
  shows "e = IndexError \<or> e = ValueError"
  using assms unfolding parse_summary_text_sections
  by (auto simp: bind_def item_def split: sum.splits if_splits dest: dict_comp_errors)

lemma section_ok_nth:
  "section_ok keep val sect \<Longrightarrow> k < length sect \<Longrightarrow> keep k \<Longrightarrow> 2 \<le> length (split SP (sect ! k))"
  by (simp add: section_ok_def list_all_iff)

lemma length_lines_between: "length (lines_between a b ls) = min (Suc b) (length ls) - a"
  by (simp add: lines_between_def)

lemma nth_lines_between: "a + k < min (Suc b) (length ls) \<Longrightarrow> lines_between a b ls ! k = ls ! (a + k)"
  unfolding lines_between_def by (subst nth_map) (auto simp del: upt_Suc simp add: min_def split: if_splits)

lemma nth_lines_from: "a + k < length ls \<Longrightarrow> lines_from a ls ! k = ls ! (a + k)"
  unfolding lines_from_def by (subst nth_map) simp_all

lemma short_line_not_ok:
  assumes "i < length ls" "parsed_index i" "length (split SP (ls ! i)) < 2"
  shows "\<not> summary_ok to_float to_int ls"
proof
  assume ok: "summary_ok to_float to_int ls"
  from assms(2) consider (g) "1 \<le> i" "i \<le> 6" | (t) "8 \<le> i" "i \<le> 18" "i \<noteq> 11" | (n) "20 \<le> i" "i \<noteq> 23"
    by (auto simp: parsed_index_def)
  then show False
  proof cases
    case g
    have k: "1 + (i - 1) < min (Suc 6) (length ls)" using g assms(1) by simp
    have "2 \<le> length (split SP (lines_between 1 6 ls ! (i - 1)))"
      using ok k by (intro section_ok_nth [where keep = "\<lambda>i. True"])
        (auto simp: summary_ok_def length_lines_between)
    with nth_lines_between [OF k] g assms(3) show False by simp
  next
    case t
    have k: "8 + (i - 8) < min (Suc 18) (length ls)" using t assms(1) by simp
    have "2 \<le> length (split SP (lines_between 8 18 ls ! (i - 8)))"
      using ok k t by (intro section_ok_nth [where keep = "\<lambda>i. i \<noteq> 3"])
        (auto simp: summary_ok_def length_lines_between)
    with nth_lines_between [OF k] t assms(3) show False by simp
  next
    case n
    have k: "20 + (i - 20) < length ls" using n assms(1) by simp
    have "2 \<le> length (split SP (lines_from 20 ls ! (i - 20)))"
      using ok k n by (intro section_ok_nth [where keep = "\<lambda>i. i \<noteq> 3"])
        (auto simp: summary_ok_def lines_from_def)
    with nth_lines_from [OF k] n assms(3) show False by simp
  qed
qed

subsection \<open>Registry, cleaning and construction\<close>

text \<open>A registered key is one of the eight and its file exists; the keys are distinct.\<close>

lemma get_paths_Some:
  assumes "get_paths w k = Some p"
  shows "(k, p) \<in> set possible_paths" and "files w p \<noteq> None"
proof -
  from assms have "(k, p) \<in> set (filter (\<lambda>(k, v). files w v \<noteq> None) possible_paths)"
    unfolding get_paths_def by (rule map_of_SomeD)
  then show "(k, p) \<in> set possible_paths" and "files w p \<noteq> None"
    by auto
qed

lemma get_paths_entry:
  assumes entry: "map_of possible_paths k = Some v"
  shows "get_paths w k = (if files w v \<noteq> None then Some v else None)"
proof (cases "files w v \<noteq> None")
  case True
  with entry have "get_paths w k = Some v"
    unfolding get_paths_def by (intro map_of_filter_in) simp_all
  with True show ?thesis by simp
next
  case False
  have keys: "distinct (map fst possible_paths)"
    by (simp add: possible_paths_def)
  have "get_paths w k = None"
  proof (rule ccontr)
    assume "get_paths w k \<noteq> None"
    then obtain p where p: "get_paths w k = Some p" by auto
    from get_paths_Some(1) [OF p] keys have "map_of possible_paths k = Some p"
      by (intro map_of_is_SomeI)
    with entry have "p = v" by simp
    with get_paths_Some(2) [OF p] False show False by simp
  qed
  with False show ?thesis by simp
qed

lemma get_paths_keys:
  "get_paths w ''psd_cum'' =
     (if files w ''Total_psd_cumulative.txt'' \<noteq> None then Some ''Total_psd_cumulative.txt'' else None)"
  "get_paths w ''psd'' = (if files w ''Total_psd.txt'' \<noteq> None then Some ''Total_psd.txt'' else None)"
  "get_paths w ''summary'' = (if files w ''summary.dat'' \<noteq> None then Some ''summary.dat'' else None)"
  "get_paths w ''occup_vol'' =
     (if files w ''probe_occupiable_volume.xyz'' \<noteq> None then Some ''probe_occupiable_volume.xyz'' else None)"
  by (rule get_paths_entry, simp add: possible_paths_def)+

lemma registered_get_paths: "registered (get_paths w) w"
  unfolding registered_def using get_paths_Some(2) by blast

lemma registered_write: "registered paths w \<Longrightarrow> registered paths (write_text p c w)"
  by (simp add: registered_def write_text_def)

lemma registered_file: "registered paths w \<Longrightarrow> paths k = Some p \<Longrightarrow> \<exists>c. files w p = Some c"
  by (auto simp: registered_def)

lemma clean_psd_key_ok:
  assumes "registered paths w"
  shows "\<exists>w'. clean_psd_key paths k w = (None, w') \<and> registered paths w'"
proof (cases "paths k")
  case None
  with assms show ?thesis by (simp add: clean_psd_key_def)
next
  case (Some p)
  from registered_file [OF assms Some] obtain c where c: "files w p = Some c" ..
  have "clean_psd_key paths k w = (None, write_text p (clean_psds_text c) w)"
    using Some c by (simp add: clean_psd_key_def lookup_def clean_psds_def read_text_def)
  with registered_write [OF assms] show ?thesis by simp
qed

lemma clean_summary_ok:
  assumes "registered paths w"
  shows "\<exists>w'. clean_summary paths w = (None, w') \<and> registered paths w'"
proof (cases "paths ''summary''")
  case None
  with assms show ?thesis by (simp add: clean_summary_def)
next
  case (Some p)
  from registered_file [OF assms Some] obtain c where c: "files w p = Some c" ..
  have r: "registered paths (w\<lparr>stdout := out\<rparr>)" for out
    using assms by (simp add: registered_def)
  show ?thesis
  proof (cases "CHR '','' \<in> set c")
    case True
    with Some c assms show ?thesis
      by (simp add: clean_summary_def lookup_def read_text_def)
  next
    case False
    obtain to_write printed where t: "clean_summary_text c = (to_write, printed)"
      by (cases "clean_summary_text c")
    have "clean_summary paths w = (None, write_text p to_write (w\<lparr>stdout := stdout w @ printed\<rparr>))"
      using Some c False t by (simp add: clean_summary_def lookup_def read_text_def)
    with registered_write [OF r] show ?thesis by simp
  qed
qed

lemma clean_occup_vol_ok:
  assumes "registered paths w"
  shows "\<exists>w'. clean_occup_vol paths w = (None, w') \<and> registered paths w'"
proof (cases "paths ''occup_vol''")
  case None
  with assms show ?thesis by (simp add: clean_occup_vol_def)
next
  case (Some p)
  from registered_file [OF assms Some] obtain c where c: "files w p = Some c" ..
  have "clean_occup_vol paths w = (None, write_text p (clean_occup_vol_text c) w)"
    using Some c by (simp add: clean_occup_vol_def lookup_def read_text_def)
  with registered_write [OF assms] show ?thesis by simp
qed

lemma clean_ok:
  assumes "registered paths w"
  shows "\<exists>w'. clean paths w = (None, w') \<and> registered paths w'"
proof -
  from clean_psd_key_ok [OF assms] obtain w1
    where 1: "clean_psd_key paths ''psd_cum'' w = (None, w1)" "registered paths w1" by blast
  from clean_psd_key_ok [OF 1(2)] obtain w2
    where 2: "clean_psd_key paths ''psd'' w1 = (None, w2)" "registered paths w2" by blast
  from clean_summary_ok [OF 2(2)] obtain w3
    where 3: "clean_summary paths w2 = (None, w3)" "registered paths w3" by blast
  from clean_occup_vol_ok [OF 3(2)] obtain w4
    where 4: "clean_occup_vol paths w3 = (None, w4)" "registered paths w4" by blast
  show ?thesis
    unfolding clean_def and_then_def using 1 2 3 4 by simp
qed

lemma pl_read_csv_errors:
  "files w p = Some c \<Longrightarrow> pl_read_csv rc w p sep h n cols = Inl e \<Longrightarrow> e = PolarsError"
  by (auto simp: pl_read_csv_def bind_def read_text_def split: option.splits)

lemma parse_psds_errors:
  assumes "registered paths w" "paths ''psd'' \<noteq> None" "paths ''psd_cum'' \<noteq> None"
    and "parse_psds rc paths w = Inl e"
  shows "e = PolarsError"
proof -
  from assms(2,3) obtain p q where p: "paths ''psd'' = Some p" and q: "paths ''psd_cum'' = Some q"
    by auto
  from registered_file [OF assms(1) p] registered_file [OF assms(1) q]
  obtain c d where c: "files w p = Some c" and d: "files w q = Some d" by blast
  from assms(4) show ?thesis
    unfolding parse_psds_def
    by (auto simp: bind_def lookup_def p q split: sum.splits
        dest: pl_read_csv_errors [OF c] pl_read_csv_errors [OF d])
qed

lemma parse_occup_vol_errors:
  assumes "registered paths w" "paths ''occup_vol'' \<noteq> None"
    and "parse_occup_vol rc paths w = Inl e"
  shows "e = PolarsError"
proof -
  from assms(2) obtain p where p: "paths ''occup_vol'' = Some p" by auto
  from registered_file [OF assms(1) p] obtain c where c: "files w p = Some c" ..
  from assms(3) show ?thesis
    unfolding parse_occup_vol_def
    by (auto simp: bind_def lookup_def p dest: pl_read_csv_errors [OF c])
qed

lemma parse_summary_errors:
  assumes "registered paths w" "paths ''summary'' \<noteq> None"
    and "parse_summary to_float to_int paths w = Inl e"
  shows "e = IndexError \<or> e = ValueError"
proof -
  from assms(2) obtain p where p: "paths ''summary'' = Some p" by auto
  from registered_file [OF assms(1) p] obtain c where c: "files w p = Some c" ..
  from assms(3) have "parse_summary_text to_float to_int c = Inl e"
    unfolding parse_summary_def by (simp add: bind_def lookup_def p read_text_def c)
  then show ?thesis by (rule parse_summary_text_errors)
qed

lemma parsing_errors:
  assumes reg: "registered (existing_paths self) w"
    and "parsing rc to_float to_int w self = Inl e"
  shows "e = IndexError \<or> e = ValueError \<or> e = PolarsError"
proof -
  let ?paths = "existing_paths self"
  define s1 where "s1 =
    (if ?paths ''psd'' \<noteq> None \<and> ?paths ''psd_cum'' \<noteq> None
     then bind (parse_psds rc ?paths w) (\<lambda>tab. Inr (self\<lparr>psd := tab\<rparr>))
     else Inr self)"
  define s2 where "s2 = (\<lambda>self :: ('a, 'b) run.
     if existing_paths self ''summary'' \<noteq> None
     then bind (parse_summary to_float to_int (existing_paths self) w)
            (\<lambda>(name, params). Inr (self\<lparr>input_file_name := name, summary := params\<rparr>))
     else Inr self)"
  define s3 where "s3 = (\<lambda>self :: ('a, 'b) run.
     if existing_paths self ''occup_vol'' \<noteq> None
     then bind (parse_occup_vol rc (existing_paths self) w) (\<lambda>tab. Inr (self\<lparr>occup_vol := tab\<rparr>))
     else Inr self)"
  have p: "parsing rc to_float to_int w self = bind s1 (\<lambda>self. bind (s2 self) s3)"
    by (simp add: parsing_def s1_def s2_def s3_def)
  have e1: "s1 = Inl x \<Longrightarrow> x = PolarsError" for x
    unfolding s1_def using parse_psds_errors [OF reg, of rc]
    by (auto simp: bind_def split: if_splits sum.splits)
  have k1: "s1 = Inr a \<Longrightarrow> existing_paths a = ?paths" for a
    unfolding s1_def by (auto simp: bind_def split: if_splits sum.splits)
  have e2: "existing_paths a = ?paths \<Longrightarrow> s2 a = Inl x \<Longrightarrow> x = IndexError \<or> x = ValueError" for a x
    unfolding s2_def using parse_summary_errors [OF reg, of to_float to_int]
    by (auto simp: bind_def split: if_splits sum.splits)
  have k2: "s2 a = Inr b \<Longrightarrow> existing_paths b = existing_paths a" for a b
    unfolding s2_def by (auto simp: bind_def split: if_splits sum.splits prod.splits)
  have e3: "existing_paths a = ?paths \<Longrightarrow> s3 a = Inl x \<Longrightarrow> x = PolarsError" for a x
    unfolding s3_def using parse_occup_vol_errors [OF reg, of rc]
    by (auto simp: bind_def split: if_splits sum.splits)
  show ?thesis
  proof (cases s1)
    case (Inl x)
    with assms(2) e1 [OF Inl] show ?thesis
      unfolding p by (simp add: bind_def)
  next
    case a: (Inr a)
    note ka = k1 [OF a]
    show ?thesis
    proof (cases "s2 a")
      case (Inl x)
      with assms(2) a e2 [OF ka Inl] show ?thesis
        unfolding p by (auto simp: bind_def)
    next
      case b: (Inr b)
      have kb: "existing_paths b = ?paths"
        using k2 [OF b] ka by simp
      from assms(2) a b have "s3 b = Inl e"
        unfolding p by (simp add: bind_def)
      from e3 [OF kb this] show ?thesis by simp
    qed
  qed
qed

lemma init_errors:
  assumes "fst (init rc to_float to_int w flag) = Inl e"
  shows "e = IndexError \<or> e = ValueError \<or> e = PolarsError"
proof -
  let ?self = "\<lparr>psd = empty_frame, occup_vol = empty_frame, summary = Map.empty,
                  input_file_name = [], existing_paths = get_paths w\<rparr> :: ('a, 'b) run"
  obtain w' where w': "(if flag then clean (get_paths w) w else (None, w)) = (None, w')"
    and reg: "registered (get_paths w) w'"
    using clean_ok [OF registered_get_paths, of w] registered_get_paths [of w]
    by (cases flag) auto
  have "init rc to_float to_int w flag = (parsing rc to_float to_int w' ?self, w')"
    using w' by (cases flag) (simp_all add: init_def Let_def)
  with assms have "parsing rc to_float to_int w' ?self = Inl e" by simp
  moreover have "registered (existing_paths ?self) w'" using reg by simp
  ultimately show ?thesis by (intro parsing_errors)
qed

lemma init_unfold:
  "\<exists>w'. init rc to_float to_int w flag = (parsing rc to_float to_int w' (fresh w), w')
        \<and> (if flag then clean (get_paths w) w else (None, w)) = (None, w')"
proof -
  obtain w' where w': "(if flag then clean (get_paths w) w else (None, w)) = (None, w')"
    using clean_ok [OF registered_get_paths, of w] by (cases flag) auto
  then have "init rc to_float to_int w flag = (parsing rc to_float to_int w' (fresh w), w')"
    by (cases flag) (simp_all add: init_def Let_def)
  with w' show ?thesis by blast
qed

lemma parsing_keeps:
  assumes "parsing rc to_float to_int w self = Inr r"
  shows "(existing_paths self ''psd'' = None \<or> existing_paths self ''psd_cum'' = None \<longrightarrow> psd r = psd self)
    \<and> (existing_paths self ''summary'' = None \<longrightarrow>
          summary r = summary self \<and> input_file_name r = input_file_name self)
    \<and> (existing_paths self ''occup_vol'' = None \<longrightarrow> occup_vol r = occup_vol self)"
  using assms unfolding parsing_def
  by (auto simp: bind_def split: sum.splits if_splits prod.splits)

lemma init_absent:
  assumes "fst (init rc to_float to_int w flag) = Inr self"
  shows "(files w ''Total_psd_cumulative.txt'' = None \<or> files w ''Total_psd.txt'' = None \<longrightarrow>
            psd self = empty_frame)
    \<and> (files w ''summary.dat'' = None \<longrightarrow> summary self = Map.empty \<and> input_file_name self = [])
    \<and> (files w ''probe_occupiable_volume.xyz'' = None \<longrightarrow> occup_vol self = empty_frame)"
proof -
  from init_unfold [of rc to_float to_int w flag] obtain w'
    where "init rc to_float to_int w flag = (parsing rc to_float to_int w' (fresh w), w')" by blast
  with assms have "parsing rc to_float to_int w' (fresh w) = Inr self" by simp
  from parsing_keeps [OF this] show ?thesis
    by (simp add: get_paths_keys)
qed

lemma init_nothing_present:
  assumes "files w ''Total_psd_cumulative.txt'' = None" "files w ''Total_psd.txt'' = None"
    "files w ''summary.dat'' = None" "files w ''probe_occupiable_volume.xyz'' = None"
  shows "init rc to_float to_int w flag = (Inr (fresh w), w)"
  using assms
  by (simp add: init_def Let_def clean_def and_then_def clean_psd_key_def clean_summary_def
      clean_occup_vol_def parsing_def bind_def get_paths_keys)

lemma init_only_occup_vol:
  assumes "files w ''Total_psd_cumulative.txt'' = None" "files w ''Total_psd.txt'' = None"
    "files w ''summary.dat'' = None" "files w ''probe_occupiable_volume.xyz'' = Some content"
    and "rc (if flag then clean_occup_vol_text content else content) '' '' False 2
           [''Particle'', ''x'', ''y'', ''z''] = Some tab"
  shows "init rc to_float to_int w flag =
     (Inr ((fresh w)\<lparr>occup_vol := tab\<rparr>),
      if flag then write_text ''probe_occupiable_volume.xyz'' (clean_occup_vol_text content) w else w)"
  using assms
  by (cases flag)
    (simp_all add: init_def Let_def clean_def and_then_def clean_psd_key_def clean_summary_def
      clean_occup_vol_def parsing_def bind_def get_paths_keys lookup_def read_text_def
      parse_occup_vol_def pl_read_csv_def write_text_def)

lemma guards_skip:
  "(paths k = None \<longrightarrow> clean_psd_key paths k w = (None, w))
   \<and> (paths ''summary'' = None \<longrightarrow> clean_summary paths w = (None, w))
   \<and> (paths ''occup_vol'' = None \<longrightarrow> clean_occup_vol paths w = (None, w))"
  by (simp add: clean_psd_key_def clean_summary_def clean_occup_vol_def)

lemma init_raw:
  "init rc to_float to_int w False = (parsing rc to_float to_int w (fresh w), w)"
  by (simp add: init_def Let_def)

lemma parse_raw:
  "(files w ''summary.dat'' = Some content \<longrightarrow>
      parse_summary to_float to_int (get_paths w) w = parse_summary_text to_float to_int content)
   \<and> (files w ''probe_occupiable_volume.xyz'' = Some content_xyz \<longrightarrow>
      parse_occup_vol rc (get_paths w) w =
        (case rc content_xyz '' '' False 2 [''Particle'', ''x'', ''y'', ''z''] of
           None \<Rightarrow> Inl PolarsError | Some tab \<Rightarrow> Inr tab))
   \<and> (files w ''Total_psd_cumulative.txt'' = Some content_cum \<and> files w ''Total_psd.txt'' = Some content_psd \<longrightarrow>
      parse_psds rc (get_paths w) w =
        (case rc content_cum '' '' False 3 [''d'', ''Volume Fraction''] of
           None \<Rightarrow> Inl PolarsError
         | Some tab_psd_c \<Rightarrow>
            (case rc content_psd '' '' False 1 [''d'', ''Derivative_dist''] of
               None \<Rightarrow> Inl PolarsError
             | Some tab_psd \<Rightarrow> Inr (join_full_coalesce ''d'' tab_psd_c tab_psd))))"
  by (simp add: parse_summary_def parse_occup_vol_def parse_psds_def pl_read_csv_def bind_def
      lookup_def read_text_def get_paths_keys split: option.splits)

text \<open>
  The parsing statements compute the expected object from the texts they find, whenever
  the registry was built on a directory with the same files; cleaning leaves the cleaned
  texts and raises nothing.
\<close>

lemma parsing_expected:
  assumes same: "\<And>p. files w' p = None \<longleftrightarrow> files w p = None"
  shows "parsing rc to_float to_int w' (fresh w) = expected_run rc to_float to_int (files w') (get_paths w)"
proof -
  note defs = parsing_def expected_run_def expected_psd_def expected_summary_def
    expected_occup_vol_def parse_psds_def parse_summary_def parse_occup_vol_def pl_read_csv_def
    bind_def lookup_def read_text_def get_paths_keys
  show ?thesis
    by (cases "files w' ''Total_psd_cumulative.txt''"; cases "files w' ''Total_psd.txt''";
        cases "files w' ''summary.dat''"; cases "files w' ''probe_occupiable_volume.xyz''")
      (simp_all add: defs same [symmetric] split: option.splits sum.splits)
qed

lemma clean_texts:
  "\<exists>w'. clean (get_paths w) w = (None, w') \<and> files w' = cleaned_texts (files w)"
proof -
  note defs = clean_def and_then_def clean_psd_key_def clean_psds_def clean_summary_def
    clean_occup_vol_def lookup_def read_text_def write_text_def get_paths_keys cleaned_texts_def
    case_prod_beta Let_def fun_eq_iff
  show ?thesis
    by (cases "files w ''Total_psd_cumulative.txt''"; cases "files w ''Total_psd.txt''";
        cases "files w ''summary.dat''"; cases "files w ''probe_occupiable_volume.xyz''")
      (simp_all add: defs)
qed

lemma cleaned_texts_None: "cleaned_texts texts p = None \<longleftrightarrow> texts p = None"
  by (simp add: cleaned_texts_def)

lemma init_result:
  "fst (init rc to_float to_int w flag) =
     expected_run rc to_float to_int (if flag then cleaned_texts (files w) else files w) (get_paths w)"
proof (cases flag)
  case False
  then show ?thesis
    by (simp add: init_def Let_def parsing_expected)
next
  case True
  from clean_texts [of w] obtain w'
    where c: "clean (get_paths w) w = (None, w')" and t: "files w' = cleaned_texts (files w)"
    by blast
  have "parsing rc to_float to_int w' (fresh w) = expected_run rc to_float to_int (files w') (get_paths w)"
    by (rule parsing_expected) (simp add: t cleaned_texts_None)
  with True c t show ?thesis
    by (simp add: init_def Let_def)
qed

lemma init_raw_result:
  "init rc to_float to_int w False = (expected_run rc to_float to_int (files w) (get_paths w), w)"
  by (simp add: init_def Let_def parsing_expected)

lemma expected_run_no_text:
  assumes "texts ''Total_psd_cumulative.txt'' = None \<or> texts ''Total_psd.txt'' = None"
    and "texts ''summary.dat'' = None" and "texts ''probe_occupiable_volume.xyz'' = None"
  shows "expected_run rc to_float to_int texts paths =
     Inr \<lparr>psd = empty_frame, occup_vol = empty_frame, summary = Map.empty, input_file_name = [],
          existing_paths = paths\<rparr>"
  using assms
  by (auto simp: expected_run_def expected_psd_def expected_summary_def expected_occup_vol_def
      bind_def split: option.splits)

lemma init_lone_psd:
  assumes "files w ''Total_psd_cumulative.txt'' = None \<or> files w ''Total_psd.txt'' = None"
    and "files w ''summary.dat'' = None" and "files w ''probe_occupiable_volume.xyz'' = None"
  shows "fst (init rc to_float to_int w flag) = Inr (fresh w)"
  unfolding init_result
  by (rule expected_run_no_text) (use assms in \<open>simp_all add: cleaned_texts_def\<close>)

lemma expected_run_raises:
  assumes "expected_run rc to_float to_int texts paths = Inl e"
  shows "texts ''Total_psd_cumulative.txt'' \<noteq> None \<and> texts ''Total_psd.txt'' \<noteq> None
           \<and> expected_psd rc texts = Inl e
         \<or> texts ''summary.dat'' \<noteq> None \<and> expected_summary to_float to_int texts = Inl e
         \<or> texts ''probe_occupiable_volume.xyz'' \<noteq> None \<and> expected_occup_vol rc texts = Inl e"
proof -
  have p: "texts ''Total_psd_cumulative.txt'' \<noteq> None \<and> texts ''Total_psd.txt'' \<noteq> None"
    if "expected_psd rc texts = Inl x" for x
    using that by (auto simp: expected_psd_def split: option.splits)
  have s: "texts ''summary.dat'' \<noteq> None" if "expected_summary to_float to_int texts = Inl x" for x
    using that by (auto simp: expected_summary_def split: option.splits)
  have v: "texts ''probe_occupiable_volume.xyz'' \<noteq> None" if "expected_occup_vol rc texts = Inl x" for x
    using that by (auto simp: expected_occup_vol_def split: option.splits)
  show ?thesis
  proof (cases "expected_psd rc texts")
    case (Inl x)
    with assms have "x = e" by (simp add: expected_run_def bind_def)
    with Inl p [OF Inl] show ?thesis by simp
  next
    case a: (Inr a)
    show ?thesis
    proof (cases "expected_summary to_float to_int texts")
      case (Inl x)
      with assms a have "x = e" by (simp add: expected_run_def bind_def)
      with Inl s [OF Inl] show ?thesis by simp
    next
      case b: (Inr b)
      with assms a have "expected_occup_vol rc texts = Inl e"
        by (cases "expected_occup_vol rc texts")
          (simp_all add: expected_run_def bind_def case_prod_beta)
      with v [OF this] show ?thesis by simp
    qed
  qed
qed

lemma init_raises:
  assumes "fst (init rc to_float to_int w flag) = Inl e"
  shows "files w ''Total_psd_cumulative.txt'' \<noteq> None \<and> files w ''Total_psd.txt'' \<noteq> None
           \<and> expected_psd rc (if flag then cleaned_texts (files w) else files w) = Inl e
         \<or> files w ''summary.dat'' \<noteq> None
           \<and> expected_summary to_float to_int (if flag then cleaned_texts (files w) else files w) = Inl e
         \<or> files w ''probe_occupiable_volume.xyz'' \<noteq> None
           \<and> expected_occup_vol rc (if flag then cleaned_texts (files w) else files w) = Inl e"
proof -
  let ?texts = "if flag then cleaned_texts (files w) else files w"
  have same: "?texts p \<noteq> None \<longleftrightarrow> files w p \<noteq> None" for p
    using cleaned_texts_None [of "files w" p] by (cases flag) simp_all
  from assms have "expected_run rc to_float to_int ?texts (get_paths w) = Inl e"
    by (simp only: init_result)
  from expected_run_raises [OF this] show ?thesis
    unfolding same .
qed

lemma init_only_summary:
  assumes "files w ''Total_psd_cumulative.txt'' = None \<or> files w ''Total_psd.txt'' = None"
    and "files w ''summary.dat'' = Some content" and "files w ''probe_occupiable_volume.xyz'' = None"
  shows "init rc to_float to_int w False =
     (bind (parse_summary_text to_float to_int content) (\<lambda>(name, params).
        Inr \<lparr>psd = empty_frame, occup_vol = empty_frame, summary = params, input_file_name = name,
             existing_paths = get_paths w\<rparr>), w)"
  using assms
  by (auto simp: init_raw_result expected_run_def expected_psd_def expected_summary_def
      expected_occup_vol_def bind_def split: option.splits)

subsection \<open>The full outer join\<close>

lemma column_index_less: "name \<in> set cols \<Longrightarrow> column_index name cols < length cols"
  unfolding column_index_def
  by (induction cols) auto

lemma join_rows:
  "row \<in> set (rows (join_full_coalesce on l r)) \<longleftrightarrow>
     (\<exists>lr \<in> set (rows l).
        (\<forall>rr \<in> set (rows r). \<not> (lr ! column_index on (columns l) \<noteq> None
            \<and> lr ! column_index on (columns l) = rr ! column_index on (columns r)))
        \<and> row = lr @ replicate (length (columns r) - 1) None
      \<or> (\<exists>rr \<in> set (rows r). lr ! column_index on (columns l) \<noteq> None
            \<and> lr ! column_index on (columns l) = rr ! column_index on (columns r)
            \<and> row = lr @ without (column_index on (columns r)) rr))
     \<or> (\<exists>rr \<in> set (rows r).
          (\<forall>lr \<in> set (rows l). \<not> (lr ! column_index on (columns l) \<noteq> None
            \<and> lr ! column_index on (columns l) = rr ! column_index on (columns r)))
          \<and> row = (replicate (length (columns l)) None)
                [column_index on (columns l) := rr ! column_index on (columns r)]
              @ without (column_index on (columns r)) rr)"
  (is "?L \<longleftrightarrow> ?A \<or> ?B")
proof -
  let ?i = "column_index on (columns l)" and ?j = "column_index on (columns r)"
  let ?m = "\<lambda>lr rr. lr ! ?i \<noteq> None \<and> lr ! ?i = rr ! ?j"
  let ?f = "\<lambda>lr. case filter (?m lr) (rows r) of
               [] \<Rightarrow> [lr @ replicate (length (columns r) - 1) None]
             | ms \<Rightarrow> map (\<lambda>rr. lr @ without ?j rr) ms"
  have f: "row \<in> set (?f lr) \<longleftrightarrow>
      (\<forall>rr \<in> set (rows r). \<not> ?m lr rr) \<and> row = lr @ replicate (length (columns r) - 1) None
      \<or> (\<exists>rr \<in> set (rows r). ?m lr rr \<and> row = lr @ without ?j rr)" for lr
  proof (cases "filter (?m lr) (rows r)")
    case Nil
    then have "\<forall>rr \<in> set (rows r). \<not> ?m lr rr"
      by (simp add: filter_empty_conv)
    with Nil show ?thesis by auto
  next
    case (Cons a as)
    then have "set (filter (?m lr) (rows r)) = set (a # as)" by simp
    then have ex: "\<exists>rr \<in> set (rows r). ?m lr rr"
      by (metis (mono_tags, lifting) list.set_intros(1) mem_Collect_eq set_filter)
    have "row \<in> set (?f lr) \<longleftrightarrow> row \<in> (\<lambda>rr. lr @ without ?j rr) ` set (filter (?m lr) (rows r))"
      unfolding Cons by simp
    also have "\<dots> \<longleftrightarrow> (\<exists>rr \<in> set (rows r). ?m lr rr \<and> row = lr @ without ?j rr)"
      by auto
    finally show ?thesis using ex by blast
  qed
  have rows_eq: "rows (join_full_coalesce on l r) =
      concat (map ?f (rows l))
      @ map (\<lambda>rr. (replicate (length (columns l)) None)[?i := rr ! ?j] @ without ?j rr)
          (filter (\<lambda>rr. \<not> list_ex (\<lambda>lr. ?m lr rr) (rows l)) (rows r))"
    by (simp add: join_full_coalesce_def Let_def)
  have "?L \<longleftrightarrow> (\<exists>lr \<in> set (rows l). row \<in> set (?f lr)) \<or> ?B"
    unfolding rows_eq by (auto simp: list_ex_iff)
  then show ?thesis
    unfolding f by blast
qed

lemma key_mem: "row \<in> set (rows fr) \<Longrightarrow> row ! column_index on (columns fr) \<in> keys on fr"
  by (simp add: keys_def)

lemma join_keys:
  assumes wl: "rectangular l" and wr: "rectangular r"
    and il: "on \<in> set (columns l)" and ir: "on \<in> set (columns r)"
  shows "(\<lambda>row. row ! column_index on (columns l)) ` set (rows (join_full_coalesce on l r))
     = keys on l \<union> keys on r"
proof -
  let ?i = "column_index on (columns l)" and ?j = "column_index on (columns r)"
  let ?J = "join_full_coalesce on l r"
  have i: "?i < length (columns l)" using il by (rule column_index_less)
  have len: "lr \<in> set (rows l) \<Longrightarrow> length lr = length (columns l)" for lr
    using wl by (simp add: rectangular_def list_all_iff)
  have left: "lr \<in> set (rows l) \<Longrightarrow> (lr @ xs) ! ?i = lr ! ?i" for lr xs
    using i len [of lr] by (simp add: nth_append)
  have right: "((replicate (length (columns l)) None)[?i := c] @ xs) ! ?i = c" for c :: "'a option" and xs
    using i by (simp add: nth_append)
  show ?thesis
  proof (intro equalityI subsetI)
    fix c
    assume "c \<in> (\<lambda>row. row ! ?i) ` set (rows ?J)"
    then obtain row where row: "row \<in> set (rows ?J)" and c: "c = row ! ?i" by blast
    from row [unfolded join_rows] consider
        (l) lr xs where "lr \<in> set (rows l)" "row = lr @ xs"
      | (r) rr xs where "rr \<in> set (rows r)"
          "row = (replicate (length (columns l)) None)[?i := rr ! ?j] @ xs"
      by blast
    then show "c \<in> keys on l \<union> keys on r"
    proof cases
      case l
      then show ?thesis unfolding c using left [OF l(1)] key_mem [OF l(1), of on] by simp
    next
      case r
      then show ?thesis unfolding c using right key_mem [OF r(1), of on] by simp
    qed
  next
    fix c
    assume "c \<in> keys on l \<union> keys on r"
    then show "c \<in> (\<lambda>row. row ! ?i) ` set (rows ?J)"
    proof
      assume "c \<in> keys on l"
      then obtain lr where lr: "lr \<in> set (rows l)" and c: "c = lr ! ?i"
        unfolding keys_def by blast
      have "\<exists>xs. lr @ xs \<in> set (rows ?J)"
        unfolding join_rows using lr by blast
      then obtain xs where "lr @ xs \<in> set (rows ?J)" ..
      then have "(lr @ xs) ! ?i \<in> (\<lambda>row. row ! ?i) ` set (rows ?J)" by (rule imageI)
      then show ?thesis unfolding c left [OF lr] .
    next
      assume "c \<in> keys on r"
      then obtain rr where rr: "rr \<in> set (rows r)" and c: "c = rr ! ?j"
        unfolding keys_def by blast
      show ?thesis
      proof (cases "\<exists>lr \<in> set (rows l). lr ! ?i \<noteq> None \<and> lr ! ?i = rr ! ?j")
        case True
        then obtain lr where lr: "lr \<in> set (rows l)" and m: "lr ! ?i = rr ! ?j" by blast
        have "\<exists>xs. lr @ xs \<in> set (rows ?J)"
          unfolding join_rows using lr by blast
        then obtain xs where "lr @ xs \<in> set (rows ?J)" ..
        then have "(lr @ xs) ! ?i \<in> (\<lambda>row. row ! ?i) ` set (rows ?J)" by (rule imageI)
        then show ?thesis unfolding c left [OF lr] m .
      next
        case False
        then have "(replicate (length (columns l)) None)[?i := rr ! ?j] @ without ?j rr \<in> set (rows ?J)"
          unfolding join_rows using rr by blast
        then have "((replicate (length (columns l)) None)[?i := rr ! ?j] @ without ?j rr) ! ?i
            \<in> (\<lambda>row. row ! ?i) ` set (rows ?J)" by (rule imageI)
        then show ?thesis unfolding c right .
      qed
    qed
  qed
qed

lemma join_nulls:
  assumes wl: "rectangular l" and il: "on \<in> set (columns l)"
    and row: "row \<in> set (rows (join_full_coalesce on l r))"
  shows "(row ! column_index on (columns l) \<notin> keys on r \<longrightarrow>
            (\<forall>c \<in> set (drop (length (columns l)) row). c = None))
    \<and> (row ! column_index on (columns l) \<notin> keys on l \<longrightarrow>
            (\<forall>m < length (columns l). m \<noteq> column_index on (columns l) \<longrightarrow> row ! m = None))"
proof -
  let ?i = "column_index on (columns l)" and ?j = "column_index on (columns r)"
  have i: "?i < length (columns l)" using il by (rule column_index_less)
  have len: "lr \<in> set (rows l) \<Longrightarrow> length lr = length (columns l)" for lr
    using wl by (simp add: rectangular_def list_all_iff)
  from row [unfolded join_rows] consider
      (unmatched) lr where "lr \<in> set (rows l)" "row = lr @ replicate (length (columns r) - 1) None"
    | (matched) lr rr where "lr \<in> set (rows l)" "rr \<in> set (rows r)"
        "lr ! ?i = rr ! ?j" "row = lr @ without ?j rr"
    | (right) rr where "rr \<in> set (rows r)"
        "row = (replicate (length (columns l)) None)[?i := rr ! ?j] @ without ?j rr"
    by blast
  then show ?thesis
  proof cases
    case unmatched
    have "row ! ?i = lr ! ?i"
      using i len [OF unmatched(1)] unmatched(2) by (simp add: nth_append)
    then have "row ! ?i \<in> keys on l"
      using key_mem [OF unmatched(1), of on] by simp
    moreover have "drop (length (columns l)) row = replicate (length (columns r) - 1) None"
      using len [OF unmatched(1)] unmatched(2) by simp
    ultimately show ?thesis by simp
  next
    case matched
    have "row ! ?i = lr ! ?i"
      using i len [OF matched(1)] matched(4) by (simp add: nth_append)
    then have "row ! ?i \<in> keys on l" "row ! ?i \<in> keys on r"
      using key_mem [OF matched(1), of on] key_mem [OF matched(2), of on] matched(3) by simp_all
    then show ?thesis by simp
  next
    case right
    have "row ! ?i = rr ! ?j"
      using i right(2) by (simp add: nth_append)
    then have "row ! ?i \<in> keys on r"
      using key_mem [OF right(1), of on] by simp
    moreover have "m < length (columns l) \<Longrightarrow> m \<noteq> ?i \<Longrightarrow> row ! m = None" for m
      using right(2) by (simp add: nth_append)
    ultimately show ?thesis by simp
  qed
qed

subsection \<open>Collapsing spaces, trimming, and the lines of a cleaned text\<close>

lemma contains_sublist: "contains old s \<longleftrightarrow> sublist old s"
  by (induction s) (simp_all add: sublist_Cons_right)

lemma sub_spaces_Cons: "\<exists>t. sub_spaces (c # cs) = c # t"
  by simp

lemma sub_spaces_not_Nil: "s \<noteq> [] \<Longrightarrow> sub_spaces s \<noteq> []"
  by (cases s) simp_all

lemma prefix_sub_spaces: "prefix [x] (sub_spaces s) \<longleftrightarrow> prefix [x] s"
  by (cases s) auto

lemma set_sub_spaces: "set (sub_spaces s) = set s"
proof (induction s rule: sub_spaces.induct)
  case 1
  show ?case by simp
next
  case (2 c cs)
  show ?case
  proof (cases "c = SP")
    case False
    with 2 show ?thesis by simp
  next
    case True
    have "set cs \<subseteq> insert SP (set (dropWhile (\<lambda>x. x = SP) cs))"
      by (induction cs) auto
    moreover have "set (dropWhile (\<lambda>x. x = SP) cs) \<subseteq> set cs"
      by (auto dest: set_dropWhileD)
    ultimately show ?thesis using True 2 by auto
  qed
qed

lemma sub_spaces_no_double: "\<not> contains ''  '' (sub_spaces s)"
proof (induction s rule: sub_spaces.induct)
  case 1
  show ?case by simp
next
  case (2 c cs)
  show ?case
  proof (cases "c = SP")
    case False
    with 2 show ?thesis by (simp add: contains2_Cons)
  next
    case True
    let ?d = "dropWhile (\<lambda>x. x = SP) cs"
    have "\<not> prefix [SP] ?d"
    proof (cases ?d)
      case Nil
      show ?thesis unfolding Nil by simp
    next
      case (Cons a as)
      then have "?d \<noteq> []" by (simp only: list.distinct not_False_eq_True)
      then have "hd ?d \<noteq> SP" by (rule hd_dropWhile)
      then have "a \<noteq> SP" unfolding Cons by simp
      then show ?thesis unfolding Cons by simp
    qed
    then have p: "\<not> prefix [SP] (sub_spaces ?d)"
      unfolding prefix_sub_spaces .
    have eq: "sub_spaces (c # cs) = SP # sub_spaces ?d"
      using True by simp
    from 2 True have "\<not> contains ''  '' (sub_spaces ?d)"
      by simp
    with p show ?thesis
      unfolding eq by (simp only: contains2_Cons) simp
  qed
qed

lemma sub_spaces_fixed: "\<not> contains ''  '' s \<Longrightarrow> sub_spaces s = s"
proof (induction s rule: sub_spaces.induct)
  case 1
  show ?case by simp
next
  case (2 c cs)
  from "2.prems" have tail: "\<not> contains ''  '' cs"
    by (simp add: contains2_Cons)
  show ?case
  proof (cases "c = SP")
    case False
    with 2 tail show ?thesis by simp
  next
    case True
    with "2.prems" have "\<not> prefix [SP] cs"
      by (simp add: contains2_Cons)
    then have d: "dropWhile (\<lambda>x. x = SP) cs = cs"
      by (cases cs) auto
    with True 2 tail show ?thesis by simp
  qed
qed

lemma sub_spaces_append:
  "b \<noteq> SP \<Longrightarrow> sub_spaces (xs @ b # ys) = sub_spaces xs @ b # sub_spaces ys"
proof (induction xs rule: sub_spaces.induct)
  case 1
  then show ?case by simp
next
  case (2 c cs)
  show ?case
  proof (cases "c = SP")
    case False
    with 2 show ?thesis by simp
  next
    case True
    have "dropWhile (\<lambda>x. x = SP) (cs @ b # ys) = dropWhile (\<lambda>x. x = SP) cs @ b # ys"
      using "2.prems" by (simp add: dropWhile_append3)
    with True 2 show ?thesis by simp
  qed
qed

lemma rev_dropWhile_rev: "rev (dropWhile P (rev m)) @ rev (takeWhile P (rev m)) = m"
  unfolding rev_append [symmetric] by simp

lemma strip_sublist: "sublist (strip l) l"
proof -
  have "prefix (rev (dropWhile is_space (rev m))) m" for m
    using rev_dropWhile_rev [of is_space m] unfolding prefix_def by (intro exI) (rule sym)
  then have "sublist (strip l) (dropWhile is_space l)"
    unfolding strip_def by (rule prefix_imp_sublist)
  also have "sublist (dropWhile is_space l) l"
    by simp
  finally show ?thesis .
qed

lemma set_strip: "set (strip l) \<subseteq> set l"
  using strip_sublist [of l] by (rule set_mono_sublist)

lemma dropWhile_fixed: "dropWhile P xs = xs \<longleftrightarrow> xs = [] \<or> \<not> P (hd xs)"
proof (cases xs)
  case Nil
  then show ?thesis by simp
next
  case (Cons a as)
  have "length (dropWhile P as) \<le> length as"
    by (rule length_dropWhile_le)
  then have "dropWhile P as \<noteq> a # as"
    by (metis impossible_Cons)
  with Cons show ?thesis by simp
qed

lemma strip_idem: "strip (strip l) = strip l"
proof -
  let ?m = "dropWhile is_space l"
  let ?n = "rev (dropWhile is_space (rev ?m))"
  have n: "strip l = ?n" by (simp add: strip_def)
  have rear: "dropWhile is_space (rev ?n) = rev ?n"
    by simp
  have "?n = [] \<or> \<not> is_space (hd ?n)"
  proof (cases "?n = []")
    case True
    then show ?thesis ..
  next
    case False
    have m: "?n @ rev (takeWhile is_space (rev ?m)) = ?m"
      by (rule rev_dropWhile_rev)
    from False have "hd (?n @ rev (takeWhile is_space (rev ?m))) = hd ?n"
      by (rule hd_append2)
    then have h: "hd ?m = hd ?n"
      unfolding m .
    have "?m \<noteq> []"
      using False m by (metis append_is_Nil_conv)
    then have "\<not> is_space (hd ?m)" by (rule hd_dropWhile)
    then show ?thesis unfolding h ..
  qed
  then have front: "dropWhile is_space ?n = ?n"
    by (rule iffD2 [OF dropWhile_fixed])
  have "strip ?n = rev (dropWhile is_space (rev (dropWhile is_space ?n)))"
    by (rule strip_def)
  also have "\<dots> = ?n"
    unfolding front rear by (rule rev_rev_ident)
  finally show ?thesis unfolding n .
qed

lemma strip_empty: "strip l = [] \<longleftrightarrow> (\<forall>c \<in> set l. is_space c)"
proof
  assume "strip l = []"
  then have "dropWhile is_space (rev (dropWhile is_space l)) = []"
    by (simp add: strip_def)
  then have "\<forall>c \<in> set (rev (dropWhile is_space l)). is_space c"
    by (rule iffD1 [OF dropWhile_eq_Nil_conv])
  then have all: "\<forall>c \<in> set (dropWhile is_space l). is_space c"
    by simp
  have "dropWhile is_space l = []"
  proof (rule ccontr)
    assume ne: "dropWhile is_space l \<noteq> []"
    then have "\<not> is_space (hd (dropWhile is_space l))" by (rule hd_dropWhile)
    moreover have "hd (dropWhile is_space l) \<in> set (dropWhile is_space l)"
      using ne by (rule hd_in_set)
    ultimately show False using all by blast
  qed
  then show "\<forall>c \<in> set l. is_space c"
    by (rule iffD1 [OF dropWhile_eq_Nil_conv])
next
  assume "\<forall>c \<in> set l. is_space c"
  then have "dropWhile is_space l = []"
    by (rule iffD2 [OF dropWhile_eq_Nil_conv])
  then show "strip l = []"
    unfolding strip_def by (simp only: rev.simps dropWhile.simps)
qed

lemma after_break_suffix: "suffix (after_break d) d"
  by (induction d rule: after_break.induct) (auto simp: suffix_def)

lemma lines_sublist: "l \<in> set (splitlines s) \<Longrightarrow> sublist l s"
proof (induction s arbitrary: l rule: splitlines.induct)
  case 1
  then show ?case by simp
next
  case (2 c cs)
  let ?d = "dropWhile (\<lambda>x. \<not> is_linebreak x) (c # cs)"
  from "2.prems" consider "l = takeWhile (\<lambda>x. \<not> is_linebreak x) (c # cs)"
    | "l \<in> set (splitlines (after_break ?d))"
    by (auto simp del: takeWhile.simps dropWhile.simps)
  then show ?case
  proof cases
    case 1
    show ?thesis unfolding 1 by (rule sublist_takeWhile)
  next
    case 2
    then have "sublist l (after_break ?d)" by (rule "2.IH")
    also have "sublist (after_break ?d) ?d"
      using after_break_suffix by (rule suffix_imp_sublist)
    also have "sublist ?d (c # cs)" by (rule sublist_dropWhile)
    finally show ?thesis .
  qed
qed

lemma contains_line_break:
  "b \<noteq> a \<Longrightarrow> b \<noteq> a' \<Longrightarrow> contains [a, a'] (x @ b # r) \<longleftrightarrow> contains [a, a'] x \<or> contains [a, a'] r"
proof (induction x)
  case Nil
  then have "contains [a, a'] (b # r) = contains [a, a'] r"
    by (cases r) auto
  then show ?case by simp
next
  case (Cons c cs)
  have "prefix [a'] (cs @ b # r) \<longleftrightarrow> prefix [a'] cs"
    using Cons.prems by (cases cs) auto
  with Cons show ?case
    by (simp add: contains2_Cons del: contains.simps)
qed

lemma contains_join:
  "\<forall>l \<in> set ls. \<not> contains ''  '' l \<Longrightarrow> \<not> contains ''  '' (join [LF] ls)"
proof (induction ls rule: induct_list012)
  case 1
  show ?case by simp
next
  case (2 x)
  then show ?case by simp
next
  case (3 x y zs)
  then have "\<not> contains ''  '' x" "\<not> contains ''  '' (join [LF] (y # zs))"
    by simp_all
  then show ?case
    using contains_line_break [of LF SP SP x "join [LF] (y # zs)"] by simp
qed

lemma join_snoc: "ys \<noteq> [] \<Longrightarrow> join sep (ys @ [x]) = join sep ys @ sep @ x"
  by (induction ys rule: induct_list012) simp_all

lemma after_break_sub_spaces:
  "after_break (b # sub_spaces rest) = sub_spaces (after_break (b # rest))"
proof (cases rest)
  case Nil
  then show ?thesis by simp
next
  case (Cons x xs)
  show ?thesis
  proof (cases "b = CR \<and> x = LF")
    case True
    then show ?thesis unfolding Cons by simp
  next
    case False
    obtain t where t: "sub_spaces (x # xs) = x # t"
      using sub_spaces_Cons by blast
    from False show ?thesis
      unfolding Cons t by (simp add: t [symmetric])
  qed
qed

lemma no_break_sub_spaces: "no_break l \<Longrightarrow> no_break (sub_spaces l)"
  by (simp add: no_break_def set_sub_spaces)

lemma linebreak_not_space: "is_linebreak b \<Longrightarrow> b \<noteq> SP"
  by (auto simp: is_linebreak_def)

lemma splitlines_sub_spaces: "splitlines (sub_spaces s) = map sub_spaces (splitlines s)"
proof (induction s rule: splitlines.induct)
  case 1
  show ?case by simp
next
  case (2 c cs)
  let ?l = "takeWhile (\<lambda>x. \<not> is_linebreak x) (c # cs)"
  let ?d = "dropWhile (\<lambda>x. \<not> is_linebreak x) (c # cs)"
  have split: "c # cs = ?l @ ?d" by (simp only: takeWhile_dropWhile_id)
  have nl: "no_break ?l"
    unfolding no_break_def by (auto dest: set_takeWhileD simp del: takeWhile.simps)
  have lines: "splitlines (c # cs) = ?l # splitlines (after_break ?d)"
    by (simp only: splitlines.simps)
  show ?case
  proof (cases ?d)
    case Nil
    then have whole: "?l = c # cs" using split by (simp del: takeWhile.simps dropWhile.simps)
    with nl have nb: "no_break (c # cs)" by simp
    then have "splitlines (sub_spaces (c # cs)) = [sub_spaces (c # cs)]"
      using no_break_sub_spaces [OF nb] sub_spaces_not_Nil [of "c # cs"]
      by (simp add: splitlines_no_break del: sub_spaces.simps)
    moreover have "splitlines (c # cs) = [c # cs]"
      using nb by (simp add: splitlines_no_break del: splitlines.simps)
    ultimately show ?thesis by (simp del: sub_spaces.simps splitlines.simps)
  next
    case (Cons b rest)
    then have "?d \<noteq> []" by (simp only: list.distinct not_False_eq_True)
    then have "\<not> \<not> is_linebreak (hd ?d)" by (rule hd_dropWhile)
    then have b: "is_linebreak b" unfolding Cons by simp
    have parts: "c # cs = ?l @ b # rest" using split unfolding Cons .
    have "sub_spaces (?l @ b # rest) = sub_spaces ?l @ b # sub_spaces rest"
      using linebreak_not_space [OF b] by (rule sub_spaces_append)
    then have "splitlines (sub_spaces (?l @ b # rest))
        = sub_spaces ?l # splitlines (after_break (b # sub_spaces rest))"
      using splitlines_line [OF no_break_sub_spaces [OF nl] b] by simp
    also have "\<dots> = sub_spaces ?l # splitlines (sub_spaces (after_break ?d))"
      unfolding Cons after_break_sub_spaces ..
    also have "\<dots> = sub_spaces ?l # map sub_spaces (splitlines (after_break ?d))"
      unfolding "2.IH" ..
    also have "\<dots> = map sub_spaces (splitlines (c # cs))"
      unfolding lines by simp
    finally show ?thesis unfolding parts [symmetric] .
  qed
qed

lemma clean_occup_vol_text_lines:
  "clean_occup_vol_text content = join [LF] (map (\<lambda>l. strip (sub_spaces l)) (splitlines content))"
  by (simp add: clean_occup_vol_text_def splitlines_sub_spaces comp_def)

lemma cleaned_line:
  assumes "l \<in> set (splitlines content)"
  shows "no_break (strip (sub_spaces l))"
    and "\<not> contains ''  '' (strip (sub_spaces l))"
    and "strip (sub_spaces (strip (sub_spaces l))) = strip (sub_spaces l)"
proof -
  have "no_break l" using assms by (rule splitlines_lines_no_break)
  then show "no_break (strip (sub_spaces l))"
    using set_strip [of "sub_spaces l"] by (auto simp: no_break_def set_sub_spaces)
  have "sublist (strip (sub_spaces l)) (sub_spaces l)" by (rule strip_sublist)
  moreover have "\<not> sublist ''  '' (sub_spaces l)"
    using sub_spaces_no_double [of l] unfolding contains_sublist .
  ultimately have "\<not> sublist ''  '' (strip (sub_spaces l))"
    using sublist_order.order.trans by blast
  then show nd: "\<not> contains ''  '' (strip (sub_spaces l))"
    unfolding contains_sublist .
  show "strip (sub_spaces (strip (sub_spaces l))) = strip (sub_spaces l)"
    unfolding sub_spaces_fixed [OF nd] by (rule strip_idem)
qed

lemma clean_occup_vol_text_reread:
  "splitlines (clean_occup_vol_text content)
     = drop_last_empty (map (\<lambda>l. strip (sub_spaces l)) (splitlines content))"
  unfolding clean_occup_vol_text_lines
  by (rule splitlines_join) (auto dest: cleaned_line(1))

lemma drop_last_empty_subset: "set (drop_last_empty ls) \<subseteq> set ls"
  by (auto simp: drop_last_empty_def dest: in_set_butlastD)

lemma clean_occup_vol_text_twice:
  "clean_occup_vol_text (clean_occup_vol_text content)
     = join [LF] (drop_last_empty (map (\<lambda>l. strip (sub_spaces l)) (splitlines content)))"
proof -
  let ?L = "map (\<lambda>l. strip (sub_spaces l)) (splitlines content)"
  have "x \<in> set (drop_last_empty ?L) \<Longrightarrow> strip (sub_spaces x) = x" for x
    using drop_last_empty_subset [of ?L] cleaned_line(3) [of _ content] by auto
  then have "map (\<lambda>l. strip (sub_spaces l)) (drop_last_empty ?L) = drop_last_empty ?L"
    by (intro map_idI)
  then show ?thesis
    by (simp only: clean_occup_vol_text_lines [of "clean_occup_vol_text content"]
        clean_occup_vol_text_reread)
qed

lemma join_drop_last_empty:
  "join [LF] (drop_last_empty ls) = join [LF] ls \<longleftrightarrow> \<not> (2 \<le> length ls \<and> last ls = [])"
proof (cases "ls \<noteq> [] \<and> last ls = []")
  case False
  then show ?thesis by (auto simp: drop_last_empty_def)
next
  case True
  then have ls: "ls = butlast ls @ [[]]"
    by (metis append_butlast_last_id)
  show ?thesis
  proof (cases "butlast ls = []")
    case True
    with ls have "ls = [[]]" by simp
    then show ?thesis by (simp add: drop_last_empty_def)
  next
    case False
    have "join [LF] ls = join [LF] (butlast ls) @ [LF]"
      using join_snoc [OF False, of "[LF]" "[]"] ls by simp
    moreover have "2 \<le> length ls"
      using False ls by (cases ls; cases "tl ls") auto
    ultimately show ?thesis
      using True by (simp add: drop_last_empty_def)
  qed
qed

lemma last_line_blank:
  assumes "splitlines content \<noteq> []"
  shows "last (map (\<lambda>l. strip (sub_spaces l)) (splitlines content)) = []
     \<longleftrightarrow> strip (last (splitlines content)) = []"
  using assms by (simp add: last_map strip_empty set_sub_spaces)

lemma clean_occup_vol_text_idem_iff:
  "clean_occup_vol_text (clean_occup_vol_text content) = clean_occup_vol_text content
     \<longleftrightarrow> \<not> (2 \<le> length (splitlines content) \<and> strip (last (splitlines content)) = [])"
proof -
  let ?L = "map (\<lambda>l. strip (sub_spaces l)) (splitlines content)"
  have "clean_occup_vol_text (clean_occup_vol_text content) = clean_occup_vol_text content
      \<longleftrightarrow> join [LF] (drop_last_empty ?L) = join [LF] ?L"
    by (subst clean_occup_vol_text_twice) (simp only: clean_occup_vol_text_lines)
  also have "\<dots> \<longleftrightarrow> \<not> (2 \<le> length ?L \<and> last ?L = [])"
    by (rule join_drop_last_empty)
  also have "\<dots> \<longleftrightarrow> \<not> (2 \<le> length (splitlines content) \<and> strip (last (splitlines content)) = [])"
    using last_line_blank [of content] by (cases "splitlines content = []") auto
  finally show ?thesis .
qed

subsection \<open>The lines of a cleaned summary\<close>

lemma clean_summary_text_lines:
  "fst (clean_summary_text content)
     = join [LF] (map (\<lambda>l. fst (clean_summary_line l)) (splitlines (summary_globals content)))"
  by (simp add: clean_summary_text_def summary_globals_def Let_def comp_def)

lemma replace1_Cons:
  "replace [a] new (x # s) = (if x = a then new else [x]) @ replace [a] new s"
  by (subst replace.simps) auto

lemma replace1_append: "replace [a] new (xs @ ys) = replace [a] new xs @ replace [a] new ys"
  by (induction xs) (simp_all add: replace1_Cons replace_Nil)

lemma replace1_break:
  "b \<noteq> a \<Longrightarrow> replace [a] new (xs @ b # ys) = replace [a] new xs @ b # replace [a] new ys"
  by (simp add: replace1_append replace1_Cons)

lemma set_replace1_delete: "set (replace [a] [] s) \<subseteq> set s"
  by (induction s) (auto simp: replace1_Cons replace_Nil)

lemma replace2_other: "x \<noteq> a \<Longrightarrow> replace [a, b] new (x # s) = x # replace [a, b] new s"
  by (cases s) (simp_all add: replace2_one replace2_step replace_Nil)

lemma replace2_break:
  "c \<noteq> a \<Longrightarrow> c \<noteq> b \<Longrightarrow>
     replace [a, b] new (xs @ c # ys) = replace [a, b] new xs @ c # replace [a, b] new ys"
proof (induction xs rule: induct_list012)
  case 1
  then show ?case by (simp add: replace2_other replace_Nil)
next
  case (2 x)
  then show ?case by (simp add: replace2_step replace2_one replace2_other)
next
  case (3 x y zs)
  then show ?case by (simp add: replace2_step)
qed

lemma set_replace2_second: "set (replace [a, b] [b] s) \<subseteq> set s"
proof (induction s rule: induct_list012)
  case 1
  show ?case by (simp add: replace_Nil)
next
  case (2 x)
  show ?case by (simp add: replace2_one)
next
  case (3 x y zs)
  then show ?case by (auto simp: replace2_step)
qed

lemma set_summary_globals: "set (summary_globals s) \<subseteq> set s"
  unfolding summary_globals_def set_sub_spaces
  using set_replace1_delete [of "CHR '':''" "replace '' _'' ''_'' s"] set_replace2_second [of SP "CHR ''_''" s]
  by blast

lemma summary_globals_Nil: "summary_globals [] = []"
  by (simp add: summary_globals_def replace_Nil)

lemma summary_globals_break:
  assumes "is_linebreak b"
  shows "summary_globals (xs @ b # ys) = summary_globals xs @ b # summary_globals ys"
proof -
  from assms have "b \<noteq> SP" "b \<noteq> CHR ''_''" "b \<noteq> CHR '':''"
    by (auto simp: is_linebreak_def)
  then show ?thesis
    by (simp add: summary_globals_def replace2_break replace1_break sub_spaces_append)
qed

lemma set_split_token: "w \<in> set (split sep s) \<Longrightarrow> set w \<subseteq> set s"
proof (induction s arbitrary: w)
  case Nil
  then show ?case by simp
next
  case (Cons c cs)
  show ?case
  proof (cases "c = sep")
    case True
    with Cons show ?thesis by auto
  next
    case False
    obtain v vs where vs: "split sep cs = v # vs"
      using split_not_Nil [of sep cs] by (cases "split sep cs") auto
    with False Cons.prems have "w = c # v \<or> w \<in> set vs" by simp
    then show ?thesis
    proof
      assume "w = c # v"
      moreover have "set v \<subseteq> set cs" using vs by (intro Cons.IH) simp
      ultimately show ?thesis by auto
    next
      assume "w \<in> set vs"
      then have "set w \<subseteq> set cs" using vs by (intro Cons.IH) simp
      then show ?thesis by auto
    qed
  qed
qed

lemma clean_summary_line_chars:
  "set (fst (clean_summary_line l)) \<subseteq> set l \<union> {SP, CHR ''_''}"
proof -
  have tok: "i < length (split SP (strip l)) \<Longrightarrow> set (split SP (strip l) ! i) \<subseteq> set l" for i
    using set_split_token [of "split SP (strip l) ! i" SP "strip l"] set_strip [of l]
    by (meson nth_mem subset_trans)
  have "set (strip l) \<subseteq> set l" by (rule set_strip)
  then show ?thesis
    using tok [of 0] tok [of 1] tok [of 2] split_not_Nil [of SP "strip l"]
    by (auto simp: clean_summary_line_def Let_def)
qed

lemma clean_summary_line_no_break: "no_break l \<Longrightarrow> no_break (fst (clean_summary_line l))"
  using clean_summary_line_chars [of l]
  by (auto simp: no_break_def is_linebreak_def)

lemma clean_summary_line_blank: "strip l = [] \<Longrightarrow> clean_summary_line l = ([], [])"
  by (simp add: clean_summary_line_def)

lemma clean_summary_text_reread:
  "splitlines (fst (clean_summary_text content))
     = drop_last_empty (map (\<lambda>l. fst (clean_summary_line l)) (splitlines (summary_globals content)))"
  unfolding clean_summary_text_lines
  by (rule splitlines_join)
    (auto dest!: splitlines_lines_no_break intro: clean_summary_line_no_break)

lemma splitlines_summary_globals:
  "CR \<notin> set s \<Longrightarrow>
     splitlines (summary_globals s) = map summary_globals (splitlines s)
     \<or> splitlines (summary_globals s) = drop_last_empty (map summary_globals (splitlines s))"
proof (induction s rule: splitlines.induct)
  case 1
  show ?case by (simp add: summary_globals_Nil)
next
  case (2 c cs)
  let ?l = "takeWhile (\<lambda>x. \<not> is_linebreak x) (c # cs)"
  let ?d = "dropWhile (\<lambda>x. \<not> is_linebreak x) (c # cs)"
  have parts: "c # cs = ?l @ ?d" by (simp only: takeWhile_dropWhile_id)
  have nl: "no_break ?l"
    unfolding no_break_def by (auto dest: set_takeWhileD simp del: takeWhile.simps)
  have nb: "no_break l \<Longrightarrow> no_break (summary_globals l)" for l
    using set_summary_globals [of l] by (auto simp: no_break_def)
  have lines: "splitlines (c # cs) = ?l # splitlines (after_break ?d)"
    by (simp only: splitlines.simps)
  show ?case
  proof (cases ?d)
    case Nil
    then have "?l = c # cs" using parts by (simp del: takeWhile.simps dropWhile.simps)
    with nl have whole: "no_break (c # cs)" by simp
    have one: "splitlines (c # cs) = [c # cs]"
      using whole by (simp add: splitlines_no_break del: splitlines.simps)
    have "splitlines (summary_globals (c # cs))
        = (if summary_globals (c # cs) = [] then [] else [summary_globals (c # cs)])"
      using nb [OF whole] by (rule splitlines_no_break)
    then show ?thesis
      unfolding one by (auto simp: drop_last_empty_def)
  next
    case (Cons b rest)
    then have "?d \<noteq> []" by (simp only: list.distinct not_False_eq_True)
    then have "\<not> \<not> is_linebreak (hd ?d)" by (rule hd_dropWhile)
    then have b: "is_linebreak b" unfolding Cons by simp
    have whole: "c # cs = ?l @ b # rest" using parts unfolding Cons .
    have "set (?l @ b # rest) \<subseteq> set (c # cs)"
      unfolding whole [symmetric] ..
    then have "b \<in> set (c # cs)" "set rest \<subseteq> set (c # cs)"
      by (auto simp del: takeWhile.simps)
    with "2.prems" have bcr: "b \<noteq> CR" and rcr: "CR \<notin> set rest" by auto
    have ab: "after_break (b # r) = r" for r
      using bcr by (rule after_break_single)
    have "splitlines (summary_globals (?l @ b # rest))
        = summary_globals ?l # splitlines (summary_globals rest)"
      unfolding summary_globals_break [OF b]
      using splitlines_line [OF nb [OF nl] b, of "summary_globals rest"] by (simp only: ab)
    then have out: "splitlines (summary_globals (c # cs))
        = summary_globals ?l # splitlines (summary_globals rest)"
      unfolding whole [symmetric] .
    have inp: "splitlines (c # cs) = ?l # splitlines rest"
      unfolding lines Cons ab ..
    have "splitlines (summary_globals rest) = map summary_globals (splitlines rest)
        \<or> splitlines (summary_globals rest) = drop_last_empty (map summary_globals (splitlines rest))"
      using "2.IH" rcr unfolding Cons ab by simp
    then show ?thesis
      unfolding out inp by (auto simp: drop_last_empty_def)
  qed
qed

lemma clean_summary_lines_of_input:
  assumes "CR \<notin> set content"
  shows "splitlines (fst (clean_summary_text content))
       = drop_last_empty (map (\<lambda>l. fst (clean_summary_line (summary_globals l))) (splitlines content))
     \<or> splitlines (fst (clean_summary_text content))
       = drop_last_empty (drop_last_empty
           (map (\<lambda>l. fst (clean_summary_line (summary_globals l))) (splitlines content)))"
proof -
  let ?g = "\<lambda>l. fst (clean_summary_line l)"
  let ?Y = "map summary_globals (splitlines content)"
  let ?L = "map (\<lambda>l. fst (clean_summary_line (summary_globals l))) (splitlines content)"
  have L: "map ?g ?Y = ?L" by (simp add: comp_def)
  from splitlines_summary_globals [OF assms] consider
      (same) "splitlines (summary_globals content) = ?Y"
    | (less) "?Y \<noteq> []" "last ?Y = []" "splitlines (summary_globals content) = butlast ?Y"
    by (auto simp: drop_last_empty_def split: if_splits)
  then show ?thesis
  proof cases
    case same
    then show ?thesis
      unfolding clean_summary_text_reread by (simp add: comp_def)
  next
    case less
    have "?L \<noteq> []" using less(1) by simp
    moreover have "last ?L = []"
      using less(1,2) L by (metis (no_types, lifting) clean_summary_line_blank fst_conv last_map
          strip_def dropWhile.simps(1) rev.simps(1))
    ultimately have "drop_last_empty ?L = butlast ?L"
      by (simp add: drop_last_empty_def)
    moreover have "map ?g (butlast ?Y) = butlast ?L"
      unfolding L [symmetric] by (rule map_butlast)
    ultimately show ?thesis
      unfolding clean_summary_text_reread less(3) by simp
  qed
qed

lemma clean_summary_writes:
  assumes "paths ''summary'' = Some path" "files w path = Some content" "CHR '','' \<notin> set content"
  shows "files (snd (clean_summary paths w)) path = Some (fst (clean_summary_text content))"
  using assms
  by (simp add: clean_summary_def lookup_def read_text_def write_text_def split: prod.splits)

section \<open>Claims\<close>

text \<open>
  C6. Summary-cleaning comma guard: when the text of the summary file contains a comma,
  \<open>__clean_summary\<close> returns without raising and leaves the directory exactly as it was:
  the text of every file, the list of writes (nothing is rewritten) and the standard output.
\<close>

theorem clean_summary_comma_guard:
  assumes "paths ''summary'' = Some path" and "files w path = Some content"
    and "CHR '','' \<in> set content"
  shows "clean_summary paths w = (None, w)"
  using assms by (simp add: clean_summary_def lookup_def read_text_def)

theorem clean_summary_comma_guard_witness:
  "clean_summary [''summary'' \<mapsto> ''summary.dat'']
     \<lparr>files = [''summary.dat'' \<mapsto> ''run.cif\<newline>V_A^3, 12.5''], writes = [], stdout = []\<rparr>
   = (None, \<lparr>files = [''summary.dat'' \<mapsto> ''run.cif\<newline>V_A^3, 12.5''], writes = [], stdout = []\<rparr>)"
  by (rule clean_summary_comma_guard [where path = "''summary.dat''"
        and content = "''run.cif\<newline>V_A^3, 12.5''"]) simp_all

text \<open>
  C4, as amended. In \<open>__clean_summary\<close>, for every line of the text (after the global
  replacements), trimmed and split at single spaces: a line of one token is appended as it
  is, nothing printed; a line of two tokens \<open>name value\<close> is appended unchanged (the two
  tokens joined by a space are the trimmed line again); a line of three tokens \<open>a b c\<close>
  becomes \<open>a_b c\<close>; a line of four or more tokens is appended unmodified and
  \<open>error\<close> is printed. No branch raises: cleaning an existing summary file returns
  normally.
\<close>

theorem clean_summary_line_branches:
  "(length (split SP (strip line0)) = 1 \<longrightarrow> clean_summary_line line0 = (strip line0, []))
   \<and> (length (split SP (strip line0)) = 2 \<longrightarrow> clean_summary_line line0 = (strip line0, []))
   \<and> (length (split SP (strip line0)) = 3 \<longrightarrow>
        clean_summary_line line0 =
          (split SP (strip line0) ! 0 @ ''_'' @ split SP (strip line0) ! 1 @ '' ''
             @ split SP (strip line0) ! 2, []))
   \<and> (4 \<le> length (split SP (strip line0)) \<longrightarrow>
        clean_summary_line line0 = (strip line0, [''error'']))
   \<and> (paths ''summary'' = Some path \<and> files w path = Some content \<longrightarrow>
        fst (clean_summary paths w) = None)"
proof (intro conjI impI)
  assume "length (split SP (strip line0)) = 1"
  then show "clean_summary_line line0 = (strip line0, [])"
    by (simp add: clean_summary_line_def Let_def)
next
  assume two: "length (split SP (strip line0)) = 2"
  then have "split SP (strip line0) = [split SP (strip line0) ! 0, split SP (strip line0) ! 1]"
    by (rule list_of_length_2)
  then have "split SP (strip line0) ! 0 @ [SP] @ split SP (strip line0) ! 1 = strip line0"
    by (rule two_tokens)
  with two show "clean_summary_line line0 = (strip line0, [])"
    by (simp add: clean_summary_line_def Let_def)
next
  assume "length (split SP (strip line0)) = 3"
  then show "clean_summary_line line0 =
          (split SP (strip line0) ! 0 @ ''_'' @ split SP (strip line0) ! 1 @ '' ''
             @ split SP (strip line0) ! 2, [])"
    by (simp add: clean_summary_line_def Let_def)
next
  assume "4 \<le> length (split SP (strip line0))"
  then show "clean_summary_line line0 = (strip line0, [''error''])"
    by (simp add: clean_summary_line_def Let_def)
next
  assume "paths ''summary'' = Some path \<and> files w path = Some content"
  then show "fst (clean_summary paths w) = None"
    by (simp add: clean_summary_def lookup_def read_text_def split: prod.splits)
qed

theorem clean_summary_line_branches_witness:
  "clean_summary_line ''Framework'' = (''Framework'', [])
   \<and> clean_summary_line ''  V_A^3   1234.5 '' = (''V_A^3   1234.5'', [''error''])
   \<and> clean_summary_line ''V_A^3 1234.5'' = (''V_A^3 1234.5'', [])
   \<and> clean_summary_line ''Helium volume 0.52'' = (''Helium_volume 0.52'', [])
   \<and> clean_summary_line ''Total pore volume 0.52'' = (''Total pore volume 0.52'', [''error''])
   \<and> fst (clean_summary [''summary'' \<mapsto> ''summary.dat'']
        \<lparr>files = [''summary.dat'' \<mapsto> ''run.cif''], writes = [], stdout = []\<rparr>) = None"
  using clean_summary_line_branches [of "''Framework''"]
    clean_summary_line_branches [of "''  V_A^3   1234.5 ''"]
    clean_summary_line_branches [of "''V_A^3 1234.5''"]
    clean_summary_line_branches [of "''Helium volume 0.52''"]
    clean_summary_line_branches [of "''Total pore volume 0.52''" "[''summary'' \<mapsto> ''summary.dat'']"
      "''summary.dat''" "\<lparr>files = [''summary.dat'' \<mapsto> ''run.cif''], writes = [], stdout = []\<rparr>"
      "''run.cif''"]
  by (simp add: strip_def is_space_def)

text \<open>
  C4 as stated fails: a line whose token count is neither two nor three need not be logged.
  The line \<open>Framework\<close> has one token and nothing is printed for it.
\<close>

theorem one_token_line_not_logged:
  "length (split SP (strip ''Framework'')) = 1 \<and> snd (clean_summary_line ''Framework'') = []"
  by (simp add: clean_summary_line_def strip_def is_space_def)

text \<open>
  C1. Summary parsing follows the fixed line-index schema. For every text of the summary
  file whose parsed lines are well shaped, \<open>__parse_summary\<close> returns line 0 verbatim as
  \<open>input_file_name\<close> and the three mappings of the schema: \<open>general_output\<close> from lines 1
  to 6, first token as key, second token as float, as integer at local index 5 (line 6);
  \<open>total_output\<close> from lines 8 to 18 with float values, without local index 3;
  \<open>network_accessible_output\<close> from line 20 to the end with float values, without local
  index 3. On every other text it raises.
\<close>

theorem parse_summary_schema:
  "(summary_ok to_float to_int (splitlines content) \<longrightarrow>
      parse_summary_text to_float to_int content =
        Inr (splitlines content ! 0, summary_schema to_float to_int (splitlines content)))
   \<and> (\<not> summary_ok to_float to_int (splitlines content) \<longrightarrow>
      (\<exists>e. parse_summary_text to_float to_int content = Inl e))"
  by (rule parse_summary_schema_aux)

theorem parse_summary_schema_witness:
  "summary_ok Some (\<lambda>s. if s = ''6'' then Some 6 else None)
     (splitlines ''run.cif\<newline>A 1\<newline>B 2\<newline>C 3\<newline>D 4\<newline>E 5\<newline>F 6'')
   \<and> parse_summary_text Some (\<lambda>s. if s = ''6'' then Some 6 else None)
       ''run.cif\<newline>A 1\<newline>B 2\<newline>C 3\<newline>D 4\<newline>E 5\<newline>F 6''
     = Inr (''run.cif'',
         summary_schema Some (\<lambda>s. if s = ''6'' then Some 6 else None)
           (splitlines ''run.cif\<newline>A 1\<newline>B 2\<newline>C 3\<newline>D 4\<newline>E 5\<newline>F 6''))"
proof -
  have ok: "summary_ok Some (\<lambda>s. if s = ''6'' then Some (6::int) else None)
     (splitlines ''run.cif\<newline>A 1\<newline>B 2\<newline>C 3\<newline>D 4\<newline>E 5\<newline>F 6'')"
    by code_simp
  have name: "splitlines ''run.cif\<newline>A 1\<newline>B 2\<newline>C 3\<newline>D 4\<newline>E 5\<newline>F 6'' ! 0 = ''run.cif''"
    by code_simp
  from ok name parse_summary_schema [of Some "\<lambda>s. if s = ''6'' then Some 6 else None"
      "''run.cif\<newline>A 1\<newline>B 2\<newline>C 3\<newline>D 4\<newline>E 5\<newline>F 6''"]
  show ?thesis by simp
qed

text \<open>
  C7, as amended. A line without two space-separated tokens has one token: cleaning keeps it
  as it is and prints nothing for it (only lines of four or more tokens are printed as
  errors), and does not raise. When the parser reads such a line at an index it takes two
  tokens from, it raises an uncaught \<open>IndexError\<close> or \<open>ValueError\<close>: it never validates
  the token count.
\<close>

theorem short_line_kept_then_parse_raises:
  "(length (split SP (strip line0)) < 2 \<longrightarrow> clean_summary_line line0 = (strip line0, []))
   \<and> (i < length (splitlines content) \<and> parsed_index i
        \<and> length (split SP (splitlines content ! i)) < 2 \<longrightarrow>
      parse_summary_text to_float to_int content = Inl IndexError
      \<or> parse_summary_text to_float to_int content = Inl ValueError)"
proof (intro conjI impI)
  assume "length (split SP (strip line0)) < 2"
  moreover have "length (split SP (strip line0)) \<noteq> 0"
    by (simp add: split_not_Nil)
  ultimately have "length (split SP (strip line0)) = 1" by linarith
  then show "clean_summary_line line0 = (strip line0, [])"
    by (simp add: clean_summary_line_def Let_def)
next
  assume "i < length (splitlines content) \<and> parsed_index i
        \<and> length (split SP (splitlines content ! i)) < 2"
  then have "\<not> summary_ok to_float to_int (splitlines content)"
    by (intro short_line_not_ok [of i]) simp_all
  then obtain e where e: "parse_summary_text to_float to_int content = Inl e"
    using parse_summary_schema_aux [of to_float to_int content] by blast
  from parse_summary_text_errors [OF e] e
  show "parse_summary_text to_float to_int content = Inl IndexError
      \<or> parse_summary_text to_float to_int content = Inl ValueError" by auto
qed

theorem short_line_kept_then_parse_raises_witness:
  "clean_summary_line ''Framework'' = (''Framework'', [])
   \<and> parse_summary_text (\<lambda>s. Some s) (\<lambda>s. None) ''run.cif\<newline>Framework'' = Inl IndexError"
proof -
  have h1: "length (split SP (strip ''Framework'')) < 2"
    by (simp add: strip_def is_space_def)
  have h2: "1 < length (splitlines ''run.cif\<newline>Framework'') \<and> parsed_index 1
      \<and> length (split SP (splitlines ''run.cif\<newline>Framework'' ! 1)) < 2"
    by code_simp
  have "case parse_summary_text (\<lambda>s. Some s) (\<lambda>s. None) ''run.cif\<newline>Framework'' of
      Inl e \<Rightarrow> e \<noteq> ValueError | Inr r \<Rightarrow> True"
    by code_simp
  then have ne: "parse_summary_text (\<lambda>s. Some s) (\<lambda>s. None) ''run.cif\<newline>Framework'' \<noteq> Inl ValueError"
    by (auto split: sum.splits)
  from short_line_kept_then_parse_raises [of "''Framework''" 1 "''run.cif\<newline>Framework''"
      "\<lambda>s. Some s" "\<lambda>s. None"] h1 h2 ne
  show ?thesis by (simp add: strip_def is_space_def)
qed

text \<open>
  C7 as stated fails where it says that cleaning logs the anomaly: the empty line has fewer
  than two tokens and nothing is printed for it.
\<close>

theorem short_line_not_logged:
  "length (split SP (strip [])) < 2 \<and> snd (clean_summary_line []) = []"
  by (simp add: clean_summary_line_def strip_def)

text \<open>
  C3. Construction never raises because a file is absent. Whatever the directory and the
  flag, its result is the expected object of the texts it parses (the cleaned texts when
  \<open>clean\<close> is true): it raises only the exception of a parser of files that exist, the
  PSD parser counting only when both PSD files exist, and so neither \<open>KeyError\<close> (a registry
  access) nor \<open>FileNotFoundError\<close> (an open). With a single PSD file and nothing else it
  returns the empty object, without reading the file as a table. Every cleaning step is a
  no-op on a key that is not registered. When construction returns, the PSD table is empty
  unless both PSD files exist, the summary and \<open>input_file_name\<close> are empty unless the
  summary file exists, and the occupied-volume table is empty unless its file exists. With
  none of the four files, construction returns the empty object and touches nothing; with
  the occupied-volume file only (and a text that polars reads), it returns that table, an
  empty PSD table, an empty summary and an empty \<open>input_file_name\<close>, the file being
  rewritten cleaned when \<open>clean\<close> is true.
\<close>

theorem construction_guards:
  "fst (init rc to_float to_int w flag) \<noteq> Inl KeyError
   \<and> fst (init rc to_float to_int w flag) \<noteq> Inl FileNotFoundError
   \<and> (paths k = None \<longrightarrow> clean_psd_key paths k w = (None, w))
   \<and> (paths ''summary'' = None \<longrightarrow> clean_summary paths w = (None, w))
   \<and> (paths ''occup_vol'' = None \<longrightarrow> clean_occup_vol paths w = (None, w))
   \<and> (fst (init rc to_float to_int w flag) = Inr self \<longrightarrow>
        (files w ''Total_psd_cumulative.txt'' = None \<or> files w ''Total_psd.txt'' = None \<longrightarrow>
           psd self = empty_frame)
        \<and> (files w ''summary.dat'' = None \<longrightarrow> summary self = Map.empty \<and> input_file_name self = [])
        \<and> (files w ''probe_occupiable_volume.xyz'' = None \<longrightarrow> occup_vol self = empty_frame))
   \<and> (files w ''Total_psd_cumulative.txt'' = None \<and> files w ''Total_psd.txt'' = None
        \<and> files w ''summary.dat'' = None \<and> files w ''probe_occupiable_volume.xyz'' = None \<longrightarrow>
        init rc to_float to_int w flag = (Inr (fresh w), w))
   \<and> (files w ''Total_psd_cumulative.txt'' = None \<and> files w ''Total_psd.txt'' = None
        \<and> files w ''summary.dat'' = None \<and> files w ''probe_occupiable_volume.xyz'' = Some content
        \<and> rc (if flag then clean_occup_vol_text content else content) '' '' False 2
             [''Particle'', ''x'', ''y'', ''z''] = Some tab \<longrightarrow>
        init rc to_float to_int w flag =
          (Inr \<lparr>psd = empty_frame, occup_vol = tab, summary = Map.empty, input_file_name = [],
                existing_paths = get_paths w\<rparr>,
           if flag then write_text ''probe_occupiable_volume.xyz'' (clean_occup_vol_text content) w
           else w))
   \<and> ((files w ''Total_psd_cumulative.txt'' = None \<or> files w ''Total_psd.txt'' = None)
        \<and> files w ''summary.dat'' = None \<and> files w ''probe_occupiable_volume.xyz'' = None \<longrightarrow>
        fst (init rc to_float to_int w flag) = Inr (fresh w))
   \<and> (fst (init rc to_float to_int w flag) = Inl e \<longrightarrow>
        files w ''Total_psd_cumulative.txt'' \<noteq> None \<and> files w ''Total_psd.txt'' \<noteq> None
          \<and> expected_psd rc (if flag then cleaned_texts (files w) else files w) = Inl e
        \<or> files w ''summary.dat'' \<noteq> None
          \<and> expected_summary to_float to_int (if flag then cleaned_texts (files w) else files w) = Inl e
        \<or> files w ''probe_occupiable_volume.xyz'' \<noteq> None
          \<and> expected_occup_vol rc (if flag then cleaned_texts (files w) else files w) = Inl e)
   \<and> expected_run rc to_float to_int (if flag then cleaned_texts (files w) else files w) (get_paths w)
       = fst (init rc to_float to_int w flag)"
proof -
  have "fst (init rc to_float to_int w flag) \<noteq> Inl KeyError"
    and "fst (init rc to_float to_int w flag) \<noteq> Inl FileNotFoundError"
    using init_errors [of rc to_float to_int w flag] by auto
  moreover note guards_skip [of paths k w]
  moreover have "fst (init rc to_float to_int w flag) = Inr self \<longrightarrow>
        (files w ''Total_psd_cumulative.txt'' = None \<or> files w ''Total_psd.txt'' = None \<longrightarrow>
           psd self = empty_frame)
        \<and> (files w ''summary.dat'' = None \<longrightarrow> summary self = Map.empty \<and> input_file_name self = [])
        \<and> (files w ''probe_occupiable_volume.xyz'' = None \<longrightarrow> occup_vol self = empty_frame)"
    using init_absent [of rc to_float to_int w flag self] by blast
  moreover have "files w ''Total_psd_cumulative.txt'' = None \<and> files w ''Total_psd.txt'' = None
        \<and> files w ''summary.dat'' = None \<and> files w ''probe_occupiable_volume.xyz'' = None \<longrightarrow>
        init rc to_float to_int w flag = (Inr (fresh w), w)"
    using init_nothing_present [of w rc to_float to_int flag] by blast
  moreover have "files w ''Total_psd_cumulative.txt'' = None \<and> files w ''Total_psd.txt'' = None
        \<and> files w ''summary.dat'' = None \<and> files w ''probe_occupiable_volume.xyz'' = Some content
        \<and> rc (if flag then clean_occup_vol_text content else content) '' '' False 2
             [''Particle'', ''x'', ''y'', ''z''] = Some tab \<longrightarrow>
        init rc to_float to_int w flag =
          (Inr \<lparr>psd = empty_frame, occup_vol = tab, summary = Map.empty, input_file_name = [],
                existing_paths = get_paths w\<rparr>,
           if flag then write_text ''probe_occupiable_volume.xyz'' (clean_occup_vol_text content) w
           else w)"
    using init_only_occup_vol [of w content rc flag tab to_float to_int] by simp
  moreover have "(files w ''Total_psd_cumulative.txt'' = None \<or> files w ''Total_psd.txt'' = None)
        \<and> files w ''summary.dat'' = None \<and> files w ''probe_occupiable_volume.xyz'' = None \<longrightarrow>
        fst (init rc to_float to_int w flag) = Inr (fresh w)"
    using init_lone_psd [of w rc to_float to_int flag] by blast
  moreover have "fst (init rc to_float to_int w flag) = Inl e \<longrightarrow>
        files w ''Total_psd_cumulative.txt'' \<noteq> None \<and> files w ''Total_psd.txt'' \<noteq> None
          \<and> expected_psd rc (if flag then cleaned_texts (files w) else files w) = Inl e
        \<or> files w ''summary.dat'' \<noteq> None
          \<and> expected_summary to_float to_int (if flag then cleaned_texts (files w) else files w) = Inl e
        \<or> files w ''probe_occupiable_volume.xyz'' \<noteq> None
          \<and> expected_occup_vol rc (if flag then cleaned_texts (files w) else files w) = Inl e"
    using init_raises [of rc to_float to_int w flag e] by blast
  moreover note init_result [of rc to_float to_int w flag, symmetric]
  ultimately show ?thesis by blast
qed

theorem construction_guards_witness:
  "clean_psd_key Map.empty ''psd''
      \<lparr>files = [''probe_occupiable_volume.xyz'' \<mapsto> ''1\<newline>probe\<newline>Na 1.0  2.0 3.0''],
        writes = [], stdout = []\<rparr>
    = (None, \<lparr>files = [''probe_occupiable_volume.xyz'' \<mapsto> ''1\<newline>probe\<newline>Na 1.0  2.0 3.0''],
        writes = [], stdout = []\<rparr>)
   \<and> init (\<lambda>text sep has_header n cols.
          Some \<lparr>columns = cols, rows = map (\<lambda>l. map Some (split SP l)) (drop n (splitlines text))\<rparr>)
        Some (\<lambda>s. None)
        \<lparr>files = [''probe_occupiable_volume.xyz'' \<mapsto> ''1\<newline>probe\<newline>Na 1.0  2.0 3.0''],
          writes = [], stdout = []\<rparr> True
      = (Inr \<lparr>psd = empty_frame,
              occup_vol = \<lparr>columns = [''Particle'', ''x'', ''y'', ''z''],
                            rows = [[Some ''Na'', Some ''1.0'', Some ''2.0'', Some ''3.0'']]\<rparr>,
              summary = Map.empty, input_file_name = [],
              existing_paths = get_paths
                \<lparr>files = [''probe_occupiable_volume.xyz'' \<mapsto> ''1\<newline>probe\<newline>Na 1.0  2.0 3.0''],
                  writes = [], stdout = []\<rparr>\<rparr>,
         \<lparr>files = [''probe_occupiable_volume.xyz'' \<mapsto> ''1\<newline>probe\<newline>Na 1.0 2.0 3.0''],
           writes = [''probe_occupiable_volume.xyz''], stdout = []\<rparr>)
   \<and> init (\<lambda>text sep has_header n cols.
          Some \<lparr>columns = cols, rows = map (\<lambda>l. map Some (split SP l)) (drop n (splitlines text))\<rparr>)
        Some (\<lambda>s. None) \<lparr>files = Map.empty, writes = [], stdout = []\<rparr> True
      = (Inr \<lparr>psd = empty_frame, occup_vol = empty_frame, summary = Map.empty, input_file_name = [],
              existing_paths = get_paths \<lparr>files = Map.empty, writes = [], stdout = []\<rparr>\<rparr>,
         \<lparr>files = Map.empty, writes = [], stdout = []\<rparr>)
   \<and> fst (init (\<lambda>text sep has_header n cols. None) Some (\<lambda>s. None)
        \<lparr>files = [''Total_psd.txt'' \<mapsto> ''a\<newline>1.0  0.1''], writes = [], stdout = []\<rparr> True)
      = Inr \<lparr>psd = (empty_frame :: string frame), occup_vol = empty_frame, summary = Map.empty,
             input_file_name = [],
             existing_paths = get_paths
               \<lparr>files = [''Total_psd.txt'' \<mapsto> ''a\<newline>1.0  0.1''], writes = [], stdout = []\<rparr>\<rparr>
   \<and> fst (init (\<lambda>text sep has_header n cols. None) Some (\<lambda>s. None)
        \<lparr>files = [''Total_psd_cumulative.txt'' \<mapsto> ''a\<newline>b\<newline>c\<newline>1.0  0.5''],
          writes = [], stdout = []\<rparr> False)
      = Inr \<lparr>psd = (empty_frame :: string frame), occup_vol = empty_frame, summary = Map.empty,
             input_file_name = [],
             existing_paths = get_paths
               \<lparr>files = [''Total_psd_cumulative.txt'' \<mapsto> ''a\<newline>b\<newline>c\<newline>1.0  0.5''],
                 writes = [], stdout = []\<rparr>\<rparr>"
proof -
  let ?rc = "\<lambda>text sep has_header n cols.
          Some \<lparr>columns = cols, rows = map (\<lambda>l. map Some (split SP l)) (drop n (splitlines text))\<rparr>"
  let ?no = "(\<lambda>text sep has_header n cols. None) :: string csv_reader"
  let ?w = "\<lparr>files = [''probe_occupiable_volume.xyz'' \<mapsto> ''1\<newline>probe\<newline>Na 1.0  2.0 3.0''],
        writes = [], stdout = []\<rparr>"
  let ?p = "\<lparr>files = [''Total_psd.txt'' \<mapsto> ''a\<newline>1.0  0.1''], writes = [], stdout = []\<rparr>"
  let ?q = "\<lparr>files = [''Total_psd_cumulative.txt'' \<mapsto> ''a\<newline>b\<newline>c\<newline>1.0  0.5''],
          writes = [], stdout = []\<rparr>"
  let ?tab = "\<lparr>columns = [''Particle'', ''x'', ''y'', ''z''],
                            rows = [[Some ''Na'', Some ''1.0'', Some ''2.0'', Some ''3.0'']]\<rparr>"
  have cleaned: "clean_occup_vol_text ''1\<newline>probe\<newline>Na 1.0  2.0 3.0'' = ''1\<newline>probe\<newline>Na 1.0 2.0 3.0''"
    by code_simp
  have read: "?rc ''1\<newline>probe\<newline>Na 1.0 2.0 3.0'' '' '' False 2 [''Particle'', ''x'', ''y'', ''z''] = Some ?tab"
    by code_simp
  have g: "clean_psd_key Map.empty ''psd'' ?w = (None, ?w)"
    using construction_guards [where rc = ?rc and to_float = Some and to_int = "\<lambda>s. None" and w = ?w
      and flag = True and paths = Map.empty and k = "''psd''"]
    by simp
  have "init ?rc Some (\<lambda>s. None) ?w True =
      (Inr \<lparr>psd = empty_frame, occup_vol = ?tab, summary = Map.empty, input_file_name = [],
            existing_paths = get_paths ?w\<rparr>,
       write_text ''probe_occupiable_volume.xyz'' (clean_occup_vol_text ''1\<newline>probe\<newline>Na 1.0  2.0 3.0'') ?w)"
    using construction_guards [where rc = ?rc and to_float = Some and to_int = "\<lambda>s. None" and w = ?w
      and flag = True and content = "''1\<newline>probe\<newline>Na 1.0  2.0 3.0''" and tab = ?tab] read
    unfolding cleaned by simp
  then have b: "init ?rc Some (\<lambda>s. None) ?w True =
      (Inr \<lparr>psd = empty_frame, occup_vol = ?tab, summary = Map.empty, input_file_name = [],
            existing_paths = get_paths ?w\<rparr>,
       write_text ''probe_occupiable_volume.xyz'' ''1\<newline>probe\<newline>Na 1.0 2.0 3.0'' ?w)"
    unfolding cleaned .
  have c: "init ?rc Some (\<lambda>s. None) \<lparr>files = Map.empty, writes = [], stdout = []\<rparr> True
      = (Inr (fresh \<lparr>files = Map.empty, writes = [], stdout = []\<rparr>),
         \<lparr>files = Map.empty, writes = [], stdout = []\<rparr>)"
    using construction_guards [where rc = ?rc and to_float = Some and to_int = "\<lambda>s. None"
      and w = "\<lparr>files = Map.empty, writes = [], stdout = []\<rparr>" and flag = True]
    by simp
  have d: "fst (init ?no Some (\<lambda>s. None) ?p True) = Inr (fresh ?p)"
    using construction_guards [where rc = ?no and to_float = Some and to_int = "\<lambda>s. None"
      and w = ?p and flag = True]
    by simp
  have e: "fst (init ?no Some (\<lambda>s. None) ?q False) = Inr (fresh ?q)"
    using construction_guards [where rc = ?no and to_float = Some and to_int = "\<lambda>s. None"
      and w = ?q and flag = False]
    by simp
  from g b c d e show ?thesis
    by (simp add: write_text_def)
qed

text \<open>
  C8. Constructing with \<open>clean=False\<close> writes nothing and parses the files as they are:
  the directory after construction is the directory before it (the text of every file, no
  write, nothing printed), and the result is the expected object of the raw texts, the
  exception of a parser included. With the summary file only, the result is what the
  summary parser makes of its raw text. The parsing statements hand the raw text of the
  summary to the summary parser and the raw texts of the tables to \<open>read_csv\<close>.
\<close>

theorem init_without_clean:
  "init rc to_float to_int w False = (expected_run rc to_float to_int (files w) (get_paths w), w)
   \<and> ((files w ''Total_psd_cumulative.txt'' = None \<or> files w ''Total_psd.txt'' = None)
        \<and> files w ''summary.dat'' = Some content \<and> files w ''probe_occupiable_volume.xyz'' = None \<longrightarrow>
      init rc to_float to_int w False =
        (bind (parse_summary_text to_float to_int content) (\<lambda>(name, params).
           Inr \<lparr>psd = empty_frame, occup_vol = empty_frame, summary = params,
                input_file_name = name, existing_paths = get_paths w\<rparr>), w))
   \<and> init rc to_float to_int w False = (parsing rc to_float to_int w (fresh w), w)
   \<and> (files w ''summary.dat'' = Some content \<longrightarrow>
      parse_summary to_float to_int (get_paths w) w = parse_summary_text to_float to_int content)
   \<and> (files w ''probe_occupiable_volume.xyz'' = Some content_xyz \<longrightarrow>
      parse_occup_vol rc (get_paths w) w =
        (case rc content_xyz '' '' False 2 [''Particle'', ''x'', ''y'', ''z''] of
           None \<Rightarrow> Inl PolarsError | Some tab \<Rightarrow> Inr tab))
   \<and> (files w ''Total_psd_cumulative.txt'' = Some content_cum \<and> files w ''Total_psd.txt'' = Some content_psd \<longrightarrow>
      parse_psds rc (get_paths w) w =
        (case rc content_cum '' '' False 3 [''d'', ''Volume Fraction''] of
           None \<Rightarrow> Inl PolarsError
         | Some tab_psd_c \<Rightarrow>
            (case rc content_psd '' '' False 1 [''d'', ''Derivative_dist''] of
               None \<Rightarrow> Inl PolarsError
             | Some tab_psd \<Rightarrow> Inr (join_full_coalesce ''d'' tab_psd_c tab_psd))))"
proof (intro conjI impI)
  show "init rc to_float to_int w False = (expected_run rc to_float to_int (files w) (get_paths w), w)"
    by (rule init_raw_result)
  show "init rc to_float to_int w False =
        (bind (parse_summary_text to_float to_int content) (\<lambda>(name, params).
           Inr \<lparr>psd = empty_frame, occup_vol = empty_frame, summary = params,
                input_file_name = name, existing_paths = get_paths w\<rparr>), w)"
    if "(files w ''Total_psd_cumulative.txt'' = None \<or> files w ''Total_psd.txt'' = None)
        \<and> files w ''summary.dat'' = Some content \<and> files w ''probe_occupiable_volume.xyz'' = None"
    using that by (intro init_only_summary) simp_all
  show "init rc to_float to_int w False = (parsing rc to_float to_int w (fresh w), w)"
    by (rule init_raw)
  show "parse_summary to_float to_int (get_paths w) w = parse_summary_text to_float to_int content"
    if "files w ''summary.dat'' = Some content"
    using that parse_raw [of w content to_float to_int content_xyz rc content_cum content_psd] by blast
  show "parse_occup_vol rc (get_paths w) w =
        (case rc content_xyz '' '' False 2 [''Particle'', ''x'', ''y'', ''z''] of
           None \<Rightarrow> Inl PolarsError | Some tab \<Rightarrow> Inr tab)"
    if "files w ''probe_occupiable_volume.xyz'' = Some content_xyz"
    using that parse_raw [of w content to_float to_int content_xyz rc content_cum content_psd] by blast
  show "parse_psds rc (get_paths w) w =
        (case rc content_cum '' '' False 3 [''d'', ''Volume Fraction''] of
           None \<Rightarrow> Inl PolarsError
         | Some tab_psd_c \<Rightarrow>
            (case rc content_psd '' '' False 1 [''d'', ''Derivative_dist''] of
               None \<Rightarrow> Inl PolarsError
             | Some tab_psd \<Rightarrow> Inr (join_full_coalesce ''d'' tab_psd_c tab_psd)))"
    if "files w ''Total_psd_cumulative.txt'' = Some content_cum \<and> files w ''Total_psd.txt'' = Some content_psd"
    using that parse_raw [of w content to_float to_int content_xyz rc content_cum content_psd] by blast
qed

theorem init_without_clean_witness:
  "(let rc = (\<lambda>text sep has_header n cols.
          Some \<lparr>columns = cols, rows = map (\<lambda>l. map Some (split SP l)) (drop n (splitlines text))\<rparr>);
        to_float = (\<lambda>s. if s = [] then None else Some s);
        to_int = (\<lambda>s. None);
        w = \<lparr>files = [''summary.dat'' \<mapsto> ''run.cif\<newline>A  1'',
                       ''probe_occupiable_volume.xyz'' \<mapsto> ''1\<newline>probe\<newline>Na 1.0  2.0 3.0'',
                       ''Total_psd_cumulative.txt'' \<mapsto> ''a\<newline>b\<newline>c\<newline>1.0  0.5'',
                       ''Total_psd.txt'' \<mapsto> ''a\<newline>1.0  0.1''],
             writes = [], stdout = []\<rparr>;
        v = \<lparr>files = [''summary.dat'' \<mapsto> ''run.cif\<newline>A  1''], writes = [], stdout = []\<rparr>
    in init rc to_float to_int w False = (Inl ValueError, w)
       \<and> init rc to_float to_int v False =
           (bind (parse_summary_text to_float to_int ''run.cif\<newline>A  1'') (\<lambda>(name, params).
              Inr \<lparr>psd = empty_frame, occup_vol = empty_frame, summary = params,
                   input_file_name = name, existing_paths = get_paths v\<rparr>), v)
       \<and> init rc to_float to_int w False = (parsing rc to_float to_int w (fresh w), w)
       \<and> parse_summary to_float to_int (get_paths w) w
           = parse_summary_text to_float to_int ''run.cif\<newline>A  1''
       \<and> parse_occup_vol rc (get_paths w) w
           = Inr \<lparr>columns = [''Particle'', ''x'', ''y'', ''z''],
                  rows = map (\<lambda>l. map Some (split SP l))
                    (drop 2 (splitlines ''1\<newline>probe\<newline>Na 1.0  2.0 3.0''))\<rparr>
       \<and> parse_psds rc (get_paths w) w
           = Inr (join_full_coalesce ''d''
                \<lparr>columns = [''d'', ''Volume Fraction''],
                  rows = map (\<lambda>l. map Some (split SP l))
                    (drop 3 (splitlines ''a\<newline>b\<newline>c\<newline>1.0  0.5''))\<rparr>
                \<lparr>columns = [''d'', ''Derivative_dist''],
                  rows = map (\<lambda>l. map Some (split SP l))
                    (drop 1 (splitlines ''a\<newline>1.0  0.1''))\<rparr>))"
proof -
  let ?rc = "\<lambda>text sep has_header n cols.
          Some \<lparr>columns = cols, rows = map (\<lambda>l. map Some (split SP l)) (drop n (splitlines text))\<rparr>"
  let ?tf = "\<lambda>s. if s = [] then None else Some s"
  let ?ti = "(\<lambda>s. None) :: string \<Rightarrow> int option"
  let ?w = "\<lparr>files = [''summary.dat'' \<mapsto> ''run.cif\<newline>A  1'',
                       ''probe_occupiable_volume.xyz'' \<mapsto> ''1\<newline>probe\<newline>Na 1.0  2.0 3.0'',
                       ''Total_psd_cumulative.txt'' \<mapsto> ''a\<newline>b\<newline>c\<newline>1.0  0.5'',
                       ''Total_psd.txt'' \<mapsto> ''a\<newline>1.0  0.1''],
             writes = [], stdout = []\<rparr>"
  let ?v = "\<lparr>files = [''summary.dat'' \<mapsto> ''run.cif\<newline>A  1''], writes = [], stdout = []\<rparr>"
  have "case expected_run ?rc ?tf ?ti (files ?w) (get_paths ?w) of
          Inl e \<Rightarrow> e = ValueError | Inr r \<Rightarrow> False"
    by code_simp
  then have raised: "expected_run ?rc ?tf ?ti (files ?w) (get_paths ?w) = Inl ValueError"
    by (simp split: sum.splits)
  note on_w = init_without_clean [where rc = ?rc and to_float = ?tf and to_int = ?ti and w = ?w
      and content = "''run.cif\<newline>A  1''"
      and content_xyz = "''1\<newline>probe\<newline>Na 1.0  2.0 3.0''"
      and content_cum = "''a\<newline>b\<newline>c\<newline>1.0  0.5''"
      and content_psd = "''a\<newline>1.0  0.1''"]
  note on_v = init_without_clean [where rc = ?rc and to_float = ?tf and to_int = ?ti and w = ?v
      and content = "''run.cif\<newline>A  1''"]
  have 1: "init ?rc ?tf ?ti ?w False = (Inl ValueError, ?w)"
    using on_w [THEN conjunct1] unfolding raised .
  have 2: "init ?rc ?tf ?ti ?v False =
           (bind (parse_summary_text ?tf ?ti ''run.cif\<newline>A  1'') (\<lambda>(name, params).
              Inr \<lparr>psd = empty_frame, occup_vol = empty_frame, summary = params,
                   input_file_name = name, existing_paths = get_paths ?v\<rparr>), ?v)"
    using on_v [THEN conjunct2, THEN conjunct1] by simp
  have 3: "init ?rc ?tf ?ti ?w False = (parsing ?rc ?tf ?ti ?w (fresh ?w), ?w)"
    using on_w [THEN conjunct2, THEN conjunct2, THEN conjunct1] .
  have 4: "parse_summary ?tf ?ti (get_paths ?w) ?w = parse_summary_text ?tf ?ti ''run.cif\<newline>A  1''"
    and 5: "parse_occup_vol ?rc (get_paths ?w) ?w
           = Inr \<lparr>columns = [''Particle'', ''x'', ''y'', ''z''],
                  rows = map (\<lambda>l. map Some (split SP l))
                    (drop 2 (splitlines ''1\<newline>probe\<newline>Na 1.0  2.0 3.0''))\<rparr>"
    and 6: "parse_psds ?rc (get_paths ?w) ?w
           = Inr (join_full_coalesce ''d''
                \<lparr>columns = [''d'', ''Volume Fraction''],
                  rows = map (\<lambda>l. map Some (split SP l))
                    (drop 3 (splitlines ''a\<newline>b\<newline>c\<newline>1.0  0.5''))\<rparr>
                \<lparr>columns = [''d'', ''Derivative_dist''],
                  rows = map (\<lambda>l. map Some (split SP l))
                    (drop 1 (splitlines ''a\<newline>1.0  0.1''))\<rparr>)"
    using on_w [THEN conjunct2, THEN conjunct2, THEN conjunct2] by (simp_all del: splitlines.simps)
  show ?thesis
    unfolding Let_def using 1 2 3 4 5 6 by (intro conjI)
qed

text \<open>
  C2. \<open>__parse_psds\<close> reads the cumulative file (three lines skipped, columns \<open>d\<close> and
  \<open>Volume Fraction\<close>) and the non-cumulative file (one line skipped, columns \<open>d\<close> and
  \<open>Derivative_dist\<close>) and joins the two tables on \<open>d\<close>, full and coalesced. For every pair
  of tables read, the keys of the result are exactly the keys of both sides; a row whose
  key no row of the right table has carries nulls in the right table's value columns, and a
  row whose key no row of the left table has carries nulls in the left table's value
  columns.
\<close>

theorem parse_psds_full_outer_join:
  assumes "files w ''Total_psd_cumulative.txt'' = Some content_cum"
    and "files w ''Total_psd.txt'' = Some content_psd"
    and "rc content_cum '' '' False 3 [''d'', ''Volume Fraction''] = Some tab_psd_c"
    and "rc content_psd '' '' False 1 [''d'', ''Derivative_dist''] = Some tab_psd"
    and "rectangular tab_psd_c" and "rectangular tab_psd"
    and "''d'' \<in> set (columns tab_psd_c)" and "''d'' \<in> set (columns tab_psd)"
  shows "parse_psds rc (get_paths w) w = Inr (join_full_coalesce ''d'' tab_psd_c tab_psd)
    \<and> (\<lambda>row. row ! column_index ''d'' (columns tab_psd_c))
          ` set (rows (join_full_coalesce ''d'' tab_psd_c tab_psd))
        = keys ''d'' tab_psd_c \<union> keys ''d'' tab_psd
    \<and> (\<forall>row \<in> set (rows (join_full_coalesce ''d'' tab_psd_c tab_psd)).
          (row ! column_index ''d'' (columns tab_psd_c) \<notin> keys ''d'' tab_psd \<longrightarrow>
             (\<forall>c \<in> set (drop (length (columns tab_psd_c)) row). c = None))
          \<and> (row ! column_index ''d'' (columns tab_psd_c) \<notin> keys ''d'' tab_psd_c \<longrightarrow>
             (\<forall>m < length (columns tab_psd_c).
                m \<noteq> column_index ''d'' (columns tab_psd_c) \<longrightarrow> row ! m = None)))"
proof (intro conjI ballI)
  show "parse_psds rc (get_paths w) w = Inr (join_full_coalesce ''d'' tab_psd_c tab_psd)"
    using assms(1-4)
    by (simp add: parse_psds_def pl_read_csv_def bind_def lookup_def read_text_def get_paths_keys)
next
  show "(\<lambda>row. row ! column_index ''d'' (columns tab_psd_c))
          ` set (rows (join_full_coalesce ''d'' tab_psd_c tab_psd))
        = keys ''d'' tab_psd_c \<union> keys ''d'' tab_psd"
    using assms(5-8) by (rule join_keys)
next
  fix row
  assume "row \<in> set (rows (join_full_coalesce ''d'' tab_psd_c tab_psd))"
  from join_nulls [OF assms(5,7) this]
  show "row ! column_index ''d'' (columns tab_psd_c) \<notin> keys ''d'' tab_psd \<longrightarrow>
             (\<forall>c \<in> set (drop (length (columns tab_psd_c)) row). c = None)"
    and "row ! column_index ''d'' (columns tab_psd_c) \<notin> keys ''d'' tab_psd_c \<longrightarrow>
             (\<forall>m < length (columns tab_psd_c).
                m \<noteq> column_index ''d'' (columns tab_psd_c) \<longrightarrow> row ! m = None)"
    by blast+
qed

theorem parse_psds_full_outer_join_witness:
  "parse_psds
     (\<lambda>text sep has_header n cols.
        Some \<lparr>columns = cols, rows = map (\<lambda>l. map Some (split SP l)) (drop n (splitlines text))\<rparr>)
     (get_paths \<lparr>files = [''Total_psd_cumulative.txt'' \<mapsto> ''a\<newline>b\<newline>c\<newline>1.0 0.5\<newline>2.0 0.8'',
                          ''Total_psd.txt'' \<mapsto> ''a\<newline>1.0 0.1\<newline>3.0 0.2''],
                 writes = [], stdout = []\<rparr>)
     \<lparr>files = [''Total_psd_cumulative.txt'' \<mapsto> ''a\<newline>b\<newline>c\<newline>1.0 0.5\<newline>2.0 0.8'',
               ''Total_psd.txt'' \<mapsto> ''a\<newline>1.0 0.1\<newline>3.0 0.2''],
      writes = [], stdout = []\<rparr>
   = Inr \<lparr>columns = [''d'', ''Volume Fraction'', ''Derivative_dist''],
          rows = [[Some ''1.0'', Some ''0.5'', Some ''0.1''],
                  [Some ''2.0'', Some ''0.8'', None],
                  [Some ''3.0'', None, Some ''0.2'']]\<rparr>"
proof -
  let ?rc = "\<lambda>text sep has_header n cols.
        Some \<lparr>columns = cols, rows = map (\<lambda>l. map Some (split SP l)) (drop n (splitlines text))\<rparr>"
  let ?w = "\<lparr>files = [''Total_psd_cumulative.txt'' \<mapsto> ''a\<newline>b\<newline>c\<newline>1.0 0.5\<newline>2.0 0.8'',
               ''Total_psd.txt'' \<mapsto> ''a\<newline>1.0 0.1\<newline>3.0 0.2''],
      writes = [], stdout = []\<rparr>"
  let ?l = "\<lparr>columns = [''d'', ''Volume Fraction''],
             rows = [[Some ''1.0'', Some ''0.5''], [Some ''2.0'', Some ''0.8'']]\<rparr>"
  let ?r = "\<lparr>columns = [''d'', ''Derivative_dist''],
             rows = [[Some ''1.0'', Some ''0.1''], [Some ''3.0'', Some ''0.2'']]\<rparr>"
  have 1: "files ?w ''Total_psd_cumulative.txt'' = Some ''a\<newline>b\<newline>c\<newline>1.0 0.5\<newline>2.0 0.8''"
    and 2: "files ?w ''Total_psd.txt'' = Some ''a\<newline>1.0 0.1\<newline>3.0 0.2''"
    by simp_all
  have 3: "?rc ''a\<newline>b\<newline>c\<newline>1.0 0.5\<newline>2.0 0.8'' '' '' False 3 [''d'', ''Volume Fraction''] = Some ?l"
    and 4: "?rc ''a\<newline>1.0 0.1\<newline>3.0 0.2'' '' '' False 1 [''d'', ''Derivative_dist''] = Some ?r"
    by code_simp+
  have 5: "rectangular ?l" and 6: "rectangular ?r"
    by (simp_all add: rectangular_def)
  have 7: "''d'' \<in> set (columns ?l)" and 8: "''d'' \<in> set (columns ?r)"
    by simp_all
  have j: "join_full_coalesce ''d'' ?l ?r =
      \<lparr>columns = [''d'', ''Volume Fraction'', ''Derivative_dist''],
          rows = [[Some ''1.0'', Some ''0.5'', Some ''0.1''],
                  [Some ''2.0'', Some ''0.8'', None],
                  [Some ''3.0'', None, Some ''0.2'']]\<rparr>"
    by code_simp
  from parse_psds_full_outer_join [of ?w _ _ ?rc, OF 1 2 3 4 5 6 7 8] j
  show ?thesis by simp
qed

text \<open>
  C5, as amended. The PSD cleaning transform is idempotent on every text. The
  occupied-volume cleaning transform is idempotent exactly on the texts that do not end in
  a blank line: applying it twice gives the result of applying it once if and only if the
  text has fewer than two lines or its last line has a character that is not whitespace.
  (It joins the trimmed lines with newlines: a blank last line leaves a final newline, which
  the next application drops.)
\<close>

theorem cleaning_idempotence:
  "clean_psds_text (clean_psds_text data) = clean_psds_text data
   \<and> (clean_occup_vol_text (clean_occup_vol_text content) = clean_occup_vol_text content
        \<longleftrightarrow> \<not> (2 \<le> length (splitlines content) \<and> strip (last (splitlines content)) = []))"
  using clean_psds_text_idem clean_occup_vol_text_idem_iff by (rule conjI)

theorem cleaning_idempotence_witness:
  "clean_psds_text (clean_psds_text ''  1.0   0.5  \<newline>   2.0 0.8 \<newline>'')
     = clean_psds_text ''  1.0   0.5  \<newline>   2.0 0.8 \<newline>''
   \<and> clean_occup_vol_text (clean_occup_vol_text ''1\<newline>probe\<newline> Na  1.0 2.0   3.0 \<newline>'')
     = clean_occup_vol_text ''1\<newline>probe\<newline> Na  1.0 2.0   3.0 \<newline>''"
proof -
  have "\<not> (2 \<le> length (splitlines ''1\<newline>probe\<newline> Na  1.0 2.0   3.0 \<newline>'')
      \<and> strip (last (splitlines ''1\<newline>probe\<newline> Na  1.0 2.0   3.0 \<newline>'')) = [])"
    by code_simp
  with cleaning_idempotence [of "''  1.0   0.5  \<newline>   2.0 0.8 \<newline>''"
      "''1\<newline>probe\<newline> Na  1.0 2.0   3.0 \<newline>''"]
  show ?thesis by blast
qed

text \<open>
  C5 as stated fails for the occupied-volume transform: on a coordinate file that ends with
  an empty line, the second application differs from the first.
\<close>

theorem occup_vol_cleaning_twice_differs:
  "clean_occup_vol_text (clean_occup_vol_text ''1\<newline>probe\<newline>Na 1.0 2.0 3.0\<newline>\<newline>'')
     \<noteq> clean_occup_vol_text ''1\<newline>probe\<newline>Na 1.0 2.0 3.0\<newline>\<newline>''"
  by code_simp

text \<open>
  C9, as amended. The occupied-volume cleaning transform gives the lines of the text (as
  \<open>splitlines\<close> cuts them), each with its runs of spaces collapsed and its leading and
  trailing whitespace stripped, joined by single newlines, without a newline at the end.
  Read back, the result has these same lines in order, except that a last line that is
  empty after stripping is not there.
\<close>

theorem clean_occup_vol_line_by_line:
  "clean_occup_vol_text content = join [LF] (map (\<lambda>l. strip (sub_spaces l)) (splitlines content))
   \<and> splitlines (clean_occup_vol_text content)
       = drop_last_empty (map (\<lambda>l. strip (sub_spaces l)) (splitlines content))"
  using clean_occup_vol_text_lines clean_occup_vol_text_reread by (rule conjI)

text \<open>
  C9 as stated fails: a text without any run of spaces and without whitespace to strip on
  any line, but with an empty last line, comes out with one line fewer.
\<close>

theorem occup_vol_cleaning_drops_line:
  "sub_spaces ''1\<newline>probe\<newline>Na 1.0 2.0 3.0\<newline>\<newline>'' = ''1\<newline>probe\<newline>Na 1.0 2.0 3.0\<newline>\<newline>''
   \<and> map strip (splitlines ''1\<newline>probe\<newline>Na 1.0 2.0 3.0\<newline>\<newline>'')
       = splitlines ''1\<newline>probe\<newline>Na 1.0 2.0 3.0\<newline>\<newline>''
   \<and> length (splitlines ''1\<newline>probe\<newline>Na 1.0 2.0 3.0\<newline>\<newline>'') = 4
   \<and> length (splitlines (clean_occup_vol_text ''1\<newline>probe\<newline>Na 1.0 2.0 3.0\<newline>\<newline>'')) = 3"
  by code_simp

text \<open>
  C10, as amended. For a summary text without comma, \<open>__clean_summary\<close> writes the lines
  of the text after the three global replacements, each cleaned, joined by newlines: one
  line per line, in order. A line that is empty after trimming is in the one-token branch
  and stays an empty line. Read back, the written text has these same lines, except that an
  empty last line is not there. In terms of the lines of the text itself (a text read in
  text mode has no carriage return): the lines read back are the lines of the text, each
  with the global replacements and the line cleaning applied, in order, without one or two
  last lines when these are empty after cleaning.
\<close>

theorem clean_summary_lines:
  "(paths ''summary'' = Some path \<and> files w path = Some content \<and> CHR '','' \<notin> set content \<longrightarrow>
      files (snd (clean_summary paths w)) path = Some (fst (clean_summary_text content)))
   \<and> fst (clean_summary_text content)
       = join [LF] (map (\<lambda>l. fst (clean_summary_line l)) (splitlines (summary_globals content)))
   \<and> splitlines (fst (clean_summary_text content))
       = drop_last_empty (map (\<lambda>l. fst (clean_summary_line l)) (splitlines (summary_globals content)))
   \<and> (CR \<notin> set content \<longrightarrow>
        splitlines (fst (clean_summary_text content))
          = drop_last_empty
              (map (\<lambda>l. fst (clean_summary_line (summary_globals l))) (splitlines content))
        \<or> splitlines (fst (clean_summary_text content))
          = drop_last_empty (drop_last_empty
              (map (\<lambda>l. fst (clean_summary_line (summary_globals l))) (splitlines content))))
   \<and> (strip l = [] \<longrightarrow> clean_summary_line l = ([], []))"
  using clean_summary_writes [of paths path w content] clean_summary_text_lines [of content]
    clean_summary_text_reread [of content] clean_summary_lines_of_input [of content]
    clean_summary_line_blank [of l]
  by blast

theorem clean_summary_lines_witness:
  "files (snd (clean_summary [''summary'' \<mapsto> ''summary.dat'']
        \<lparr>files = [''summary.dat'' \<mapsto> ''run.cif\<newline>Total volume:  3\<newline>\<newline>V _A^3 1.5''],
          writes = [], stdout = []\<rparr>)) ''summary.dat''
     = Some ''run.cif\<newline>Total_volume 3\<newline>\<newline>V_A^3 1.5''
   \<and> splitlines (fst (clean_summary_text ''run.cif\<newline>Total volume:  3\<newline>\<newline>V _A^3 1.5''))
     = [''run.cif'', ''Total_volume 3'', [], ''V_A^3 1.5'']
   \<and> clean_summary_line ''  '' = ([], [])"
proof -
  let ?c = "''run.cif\<newline>Total volume:  3\<newline>\<newline>V _A^3 1.5''"
  let ?w = "\<lparr>files = [''summary.dat'' \<mapsto> ?c], writes = [], stdout = []\<rparr>"
  have h1: "[''summary'' \<mapsto> ''summary.dat''] ''summary'' = Some ''summary.dat''
      \<and> files ?w ''summary.dat'' = Some ?c \<and> CHR '','' \<notin> set ?c"
    by simp
  have h2: "CR \<notin> set ?c" by simp
  have h3: "strip ''  '' = []" by (simp add: strip_def is_space_def)
  have out: "fst (clean_summary_text ?c) = ''run.cif\<newline>Total_volume 3\<newline>\<newline>V_A^3 1.5''"
    by code_simp
  have ls: "drop_last_empty (map (\<lambda>l. fst (clean_summary_line l)) (splitlines (summary_globals ?c)))
      = [''run.cif'', ''Total_volume 3'', [], ''V_A^3 1.5'']"
    by code_simp
  from clean_summary_lines [of "[''summary'' \<mapsto> ''summary.dat'']" "''summary.dat''" ?w ?c "''  ''"]
    h1 h2 h3
  show ?thesis
    unfolding out ls by blast
qed

text \<open>
  C10 as stated fails: a summary text without comma that ends with a blank line has three
  lines, the cleaned text two.
\<close>

theorem clean_summary_drops_last_blank_line:
  "CHR '','' \<notin> set ''run.cif\<newline>V_A^3 1.5\<newline>\<newline>''
   \<and> length (splitlines ''run.cif\<newline>V_A^3 1.5\<newline>\<newline>'') = 3
   \<and> length (splitlines (fst (clean_summary_text ''run.cif\<newline>V_A^3 1.5\<newline>\<newline>''))) = 2"
  by code_simp

end
